theory Spec2Isabelle
  imports Main "HOL-Library.Word"
begin

section \<open>SPI slave with LED control (spi\_slave.c)\<close>

text \<open>
  The module keeps two 32-byte protocol buffers, four LED state cells and drives four
  pins of one GPIO port. Everything it mutates is a global, so the model passes one
  record of these globals through every function. The C standard library calls and the
  array accesses of the parser are bounds-checked in the model: an access outside an
  array is the value \<open>Inl OutOfBounds\<close>, so that memory safety is a statement about
  the result and not an assumption.
\<close>

subsection \<open>Bytes, arrays and faults\<close>

type_synonym u8 = "8 word"

datatype fault = OutOfBounds

abbreviation NUL :: char where "NUL \<equiv> CHR 0x00"
abbreviation LF :: char where "LF \<equiv> CHR 0x0A"

definition BUFFER_SIZE :: nat where
  "BUFFER_SIZE = 32"

text \<open>Sequencing of fallible steps: the first fault ends the computation.\<close>

definition bind_res :: "fault + 'a \<Rightarrow> ('a \<Rightarrow> fault + 'b) \<Rightarrow> fault + 'b" where
  "bind_res m f = (case m of Inl e \<Rightarrow> Inl e | Inr x \<Rightarrow> f x)"

text \<open>\<open>a[i]\<close> read and \<open>a[i] = c\<close> written, on an array of known length.\<close>

definition rd :: "char list \<Rightarrow> nat \<Rightarrow> fault + char" where
  "rd a i = (if i < length a then Inr (a ! i) else Inl OutOfBounds)"

definition wr :: "char list \<Rightarrow> nat \<Rightarrow> char \<Rightarrow> fault + char list" where
  "wr a i c = (if i < length a then Inr (a[i := c]) else Inl OutOfBounds)"

text \<open>A C string literal is the array of its characters and the terminating NUL.\<close>

definition c_lit :: "string \<Rightarrow> char list" where
  "c_lit s = s @ [NUL]"

subsection \<open>The C library functions the module calls\<close>

text \<open>\<open>memset(buf, c, n)\<close>: the first \<open>n\<close> bytes of \<open>buf\<close> become \<open>c\<close>.\<close>

definition memset :: "char list \<Rightarrow> char \<Rightarrow> nat \<Rightarrow> fault + char list" where
  "memset buf c n =
     (if n \<le> length buf then Inr (replicate n c @ drop n buf) else Inl OutOfBounds)"

text \<open>
  The string held at the start of an array: the bytes before its first NUL, and
  \<open>None\<close> when the array holds no NUL (reading it as a string runs off its end).
\<close>

fun c_str :: "char list \<Rightarrow> char list option" where
  "c_str [] = None"
| "c_str (c # cs) = (if c = NUL then Some [] else map_option ((#) c) (c_str cs))"

text \<open>\<open>strcpy(dest, src)\<close>: the string of \<open>src\<close> and its NUL, over the start of \<open>dest\<close>.\<close>

definition strcpy :: "char list \<Rightarrow> char list \<Rightarrow> fault + char list" where
  "strcpy dest src =
     (case c_str src of
        None \<Rightarrow> Inl OutOfBounds
      | Some str \<Rightarrow>
          if length str + 1 \<le> length dest
          then Inr (str @ NUL # drop (length str + 1) dest)
          else Inl OutOfBounds)"

text \<open>
  \<open>strncpy(dest, src, n)\<close>: exactly \<open>n\<close> bytes of \<open>dest\<close> are written; the string of
  \<open>src\<close> padded with NULs when it is shorter than \<open>n\<close>, the first \<open>n\<close> bytes of
  \<open>src\<close> and no terminator otherwise.
\<close>

definition strncpy :: "char list \<Rightarrow> char list \<Rightarrow> nat \<Rightarrow> fault + char list" where
  "strncpy dest src n =
     (if length dest < n then Inl OutOfBounds
      else case c_str (take n src) of
             Some str \<Rightarrow> Inr (str @ replicate (n - length str) NUL @ drop n dest)
           | None \<Rightarrow>
               if n \<le> length src then Inr (take n src @ drop n dest)
               else Inl OutOfBounds)"

text \<open>
  \<open>strncmp(s1, s2, n)\<close>: at most \<open>n\<close> bytes are compared, up to and including the
  first NUL; the result is the difference of the first pair of bytes that differ, read
  as unsigned, and 0 when there is none.
\<close>

fun strncmp :: "char list \<Rightarrow> char list \<Rightarrow> nat \<Rightarrow> fault + int" where
  "strncmp s1 s2 0 = Inr 0"
| "strncmp (a # s1) (b # s2) (Suc n) =
     (if a \<noteq> b then Inr (int (of_char a) - int (of_char b))
      else if a = NUL then Inr 0
      else strncmp s1 s2 n)"
| "strncmp s1 s2 (Suc n) = Inl OutOfBounds"

text \<open>The conversion \<open>%d\<close> of a value that is not negative: its decimal digits.\<close>

definition digit_char :: "nat \<Rightarrow> char" where
  "digit_char d = ''0123456789'' ! d"

fun dec :: "nat \<Rightarrow> string" where
  "dec n = (if n < 10 then [digit_char n] else dec (n div 10) @ [digit_char (n mod 10)])"

declare dec.simps [simp del]

text \<open>
  \<open>snprintf(dest, n, "STA:%d%d%d%d\n", a, b, c, d)\<close>: at most \<open>n - 1\<close>
  characters of the formatted text are stored, then a NUL.
\<close>

definition snprintf_STA :: "char list \<Rightarrow> nat \<Rightarrow> u8 \<Rightarrow> u8 \<Rightarrow> u8 \<Rightarrow> u8 \<Rightarrow> fault + char list" where
  "snprintf_STA dest n a b c d =
     (let out = ''STA:'' @ dec (unat a) @ dec (unat b) @ dec (unat c) @ dec (unat d) @ [LF];
          w = take (n - 1) out
      in if n = 0 then Inr dest
         else if length w + 1 \<le> length dest then Inr (w @ NUL # drop (length w + 1) dest)
         else Inl OutOfBounds)"

subsection \<open>The globals of the module and the hardware it drives\<close>

datatype GPIO_PinState = GPIO_PIN_RESET | GPIO_PIN_SET

datatype led_pin = LED_GREEN_PIN | LED_ORANGE_PIN | LED_RED_PIN | LED_BLUE_PIN

datatype SPI_TypeDef = SPI1 | SPI2 | SPI3

datatype HAL_StatusTypeDef = HAL_OK | HAL_ERROR | HAL_BUSY | HAL_TIMEOUT

text \<open>The two buffers a transfer can be started on, by their identity.\<close>

datatype buffer_ptr = TX_BUFFER | RX_BUFFER

text \<open>
  The SPI handle: the peripheral it belongs to and the exchange that has been started on
  it and has not finished yet, if any (transmit buffer, receive buffer, length).
\<close>

record SPI_HandleTypeDef =
  Instance :: SPI_TypeDef
  pending :: "(buffer_ptr \<times> buffer_ptr \<times> nat) option"

record slave_state =
  rxBuffer :: "char list"
  txBuffer :: "char list"
  spiReady :: u8
  ledStates :: "u8 list"
  LED_PORT :: "led_pin \<Rightarrow> GPIO_PinState"
  hspi1 :: SPI_HandleTypeDef

text \<open>The arrays have the sizes of their declarations.\<close>

definition sizes_ok :: "slave_state \<Rightarrow> bool" where
  "sizes_ok s \<longleftrightarrow>
     length (rxBuffer s) = BUFFER_SIZE \<and> length (txBuffer s) = BUFFER_SIZE \<and>
     length (ledStates s) = 4"

text \<open>
  Modelled from the spec: the actuator driver \<open>setPin(index, bool)\<close>, which is
  \<open>HAL_GPIO_WritePin\<close> of the vendor driver; that driver is not among the sources.
  Writing a pin changes the level of that pin of the port and of no other.
\<close>

definition HAL_GPIO_WritePin ::
  "(led_pin \<Rightarrow> GPIO_PinState) \<Rightarrow> led_pin \<Rightarrow> GPIO_PinState \<Rightarrow> (led_pin \<Rightarrow> GPIO_PinState)" where
  "HAL_GPIO_WritePin port pin pinState = port(pin := pinState)"

text \<open>
  Modelled from the spec: the duplex transport capability \<open>arm(outbound, inbound, len)\<close>,
  which is \<open>HAL_SPI_TransmitReceive_IT\<close> of the vendor driver; that driver is not among
  the sources. Starting an exchange commits the two buffers and the length to the peer.
  The module ignores the status the call returns.
\<close>

definition HAL_SPI_TransmitReceive_IT ::
  "SPI_HandleTypeDef \<Rightarrow> buffer_ptr \<Rightarrow> buffer_ptr \<Rightarrow> nat \<Rightarrow> SPI_HandleTypeDef" where
  "HAL_SPI_TransmitReceive_IT hspi pTxData pRxData Size =
     hspi\<lparr>pending := Some (pTxData, pRxData, Size)\<rparr>"

subsection \<open>LED control functions\<close>

definition LED_SetState :: "u8 \<Rightarrow> u8 \<Rightarrow> slave_state \<Rightarrow> slave_state" where
  "LED_SetState index state s =
     (if index \<ge> 4 then s
      else
        let pinState = (if state \<noteq> 0 then GPIO_PIN_SET else GPIO_PIN_RESET);
            s1 = s\<lparr>ledStates := (ledStates s)[unat index := (if state \<noteq> 0 then 1 else 0)]\<rparr>
        in if index = 0 then s1\<lparr>LED_PORT := HAL_GPIO_WritePin (LED_PORT s1) LED_GREEN_PIN pinState\<rparr>
           else if index = 1 then s1\<lparr>LED_PORT := HAL_GPIO_WritePin (LED_PORT s1) LED_ORANGE_PIN pinState\<rparr>
           else if index = 2 then s1\<lparr>LED_PORT := HAL_GPIO_WritePin (LED_PORT s1) LED_RED_PIN pinState\<rparr>
           else if index = 3 then s1\<lparr>LED_PORT := HAL_GPIO_WritePin (LED_PORT s1) LED_BLUE_PIN pinState\<rparr>
           else s1)"

text \<open>The loop \<open>for (uint8_t i = 0; i < 4; i++) LED_SetState(i, state);\<close> from \<open>i\<close> on.\<close>

function LED_SetAll_loop :: "u8 \<Rightarrow> u8 \<Rightarrow> slave_state \<Rightarrow> slave_state" where
  "LED_SetAll_loop i state s =
     (if i < 4 then LED_SetAll_loop (i + 1) state (LED_SetState i state s) else s)"
  by pat_completeness auto
termination
proof (relation "measure (\<lambda>(i, state, s). 4 - unat i)")
  show "wf (measure (\<lambda>(i, state, s). 4 - unat i))"
    by simp
next
  fix i :: u8 and state :: u8 and s :: slave_state
  assume "i < 4"
  then have "unat i < 4"
    by (simp add: word_less_nat_alt)
  then have "unat (i + 1) = unat i + 1"
    by (simp add: unat_word_ariths)
  with \<open>unat i < 4\<close>
  show "((i + 1, state, LED_SetState i state s), (i, state, s))
          \<in> measure (\<lambda>(i, state, s). 4 - unat i)"
    by simp
qed

declare LED_SetAll_loop.simps [simp del]

definition LED_SetAll :: "u8 \<Rightarrow> slave_state \<Rightarrow> slave_state" where
  "LED_SetAll state s = LED_SetAll_loop 0 state s"

subsection \<open>Command parser\<close>

text \<open>
  The copy loop of \<open>ProcessCommand\<close>,
  \<open>while (i < BUFFER_SIZE - 1 && cmdRaw[i] != '\n' && cmdRaw[i] != '\0') { cmd[i] = cmdRaw[i]; i++; }\<close>,
  from index \<open>i\<close> on. It returns the local array and the final \<open>i\<close>.
\<close>

function copy_loop :: "char list \<Rightarrow> char list \<Rightarrow> nat \<Rightarrow> fault + (char list \<times> nat)" where
  "copy_loop cmdRaw cmd i =
     (if i < BUFFER_SIZE - 1 then
        (if i < length cmdRaw then
           (if cmdRaw ! i \<noteq> LF \<and> cmdRaw ! i \<noteq> NUL then
              (if i < length cmd then copy_loop cmdRaw (cmd[i := cmdRaw ! i]) (i + 1)
               else Inl OutOfBounds)
            else Inr (cmd, i))
         else Inl OutOfBounds)
      else Inr (cmd, i))"
  by pat_completeness auto
termination
  by (relation "measure (\<lambda>(cmdRaw, cmd, i). BUFFER_SIZE - 1 - i)") auto

declare copy_loop.simps [simp del]

text \<open>
  The grammar matching of \<open>ProcessCommand\<close> (the \<open>if\<close> / \<open>else if\<close> after the copy
  loop), on the terminated local array \<open>cmd\<close>. It returns the response array and the
  globals.
\<close>

definition match_command ::
  "char list \<Rightarrow> char list \<Rightarrow> slave_state \<Rightarrow> fault + (char list \<times> slave_state)" where
  "match_command cmd response s =
     bind_res (strncmp cmd (c_lit ''LED:'') 4) (\<lambda>r1.
       if r1 = 0 then
         bind_res (rd cmd 4) (\<lambda>color.
         bind_res (rd cmd 5) (\<lambda>state.
           if state \<noteq> CHR ''0'' \<and> state \<noteq> CHR ''1'' then Inr (response, s)
           else
             let stateVal = (if state = CHR ''1'' then 1 else 0) :: u8 in
             if color = CHR ''G'' then
               bind_res (strcpy response (c_lit ''OK\<newline>'')) (\<lambda>r. Inr (r, LED_SetState 0 stateVal s))
             else if color = CHR ''O'' then
               bind_res (strcpy response (c_lit ''OK\<newline>'')) (\<lambda>r. Inr (r, LED_SetState 1 stateVal s))
             else if color = CHR ''R'' then
               bind_res (strcpy response (c_lit ''OK\<newline>'')) (\<lambda>r. Inr (r, LED_SetState 2 stateVal s))
             else if color = CHR ''B'' then
               bind_res (strcpy response (c_lit ''OK\<newline>'')) (\<lambda>r. Inr (r, LED_SetState 3 stateVal s))
             else if color = CHR ''A'' then
               bind_res (strcpy response (c_lit ''OK\<newline>'')) (\<lambda>r. Inr (r, LED_SetAll stateVal s))
             else Inr (response, s)))
       else
         bind_res (strncmp cmd (c_lit ''GET:LED'') 7) (\<lambda>r2.
           if r2 = 0 then
             bind_res (snprintf_STA response BUFFER_SIZE
                         (ledStates s ! 0) (ledStates s ! 1) (ledStates s ! 2) (ledStates s ! 3))
               (\<lambda>r. Inr (r, s))
           else Inr (response, s)))"

text \<open>
  \<open>ProcessCommand(cmdRaw, response)\<close>. The local \<open>char cmd[BUFFER_SIZE]\<close> is not
  initialised: what it holds on entry is the parameter \<open>cmd0\<close>.
\<close>

definition ProcessCommand ::
  "char list \<Rightarrow> char list \<Rightarrow> char list \<Rightarrow> slave_state \<Rightarrow> fault + (char list \<times> slave_state)" where
  "ProcessCommand cmd0 cmdRaw response s =
     bind_res (copy_loop cmdRaw cmd0 0) (\<lambda>(cmd1, i).
     bind_res (wr cmd1 i NUL) (\<lambda>cmd.
       match_command cmd response s))"

subsection \<open>SPI communication, interrupt-driven\<close>

definition SPI_Slave_Init :: "slave_state \<Rightarrow> fault + slave_state" where
  "SPI_Slave_Init s0 =
     (let s = LED_SetAll 0 s0 in
      bind_res (memset (rxBuffer s) NUL BUFFER_SIZE) (\<lambda>rx.
      bind_res (memset (txBuffer s) NUL BUFFER_SIZE) (\<lambda>tx0.
      bind_res (strcpy tx0 (c_lit ''RDY\<newline>'')) (\<lambda>tx.
        Inr (s\<lparr>rxBuffer := rx, txBuffer := tx,
                hspi1 := HAL_SPI_TransmitReceive_IT (hspi1 s) TX_BUFFER RX_BUFFER BUFFER_SIZE\<rparr>)))))"

text \<open>
  The transfer-complete callback. \<open>char response[BUFFER_SIZE] = {0}\<close> is all NUL before
  the default answer is copied into it.
\<close>

definition HAL_SPI_TxRxCpltCallback ::
  "SPI_HandleTypeDef \<Rightarrow> char list \<Rightarrow> slave_state \<Rightarrow> fault + slave_state" where
  "HAL_SPI_TxRxCpltCallback hspi cmd0 s =
     (if Instance hspi = Instance (hspi1 s) then
        bind_res (strcpy (replicate BUFFER_SIZE NUL) (c_lit ''ERR\<newline>'')) (\<lambda>response0.
        bind_res (ProcessCommand cmd0 (rxBuffer s) response0 s) (\<lambda>(response, s1).
        bind_res (memset (txBuffer s1) NUL BUFFER_SIZE) (\<lambda>tx0.
        bind_res (strncpy tx0 response (BUFFER_SIZE - 1)) (\<lambda>tx.
        bind_res (memset (rxBuffer s1) NUL BUFFER_SIZE) (\<lambda>rx.
          Inr (s1\<lparr>txBuffer := tx, rxBuffer := rx,
                   hspi1 := HAL_SPI_TransmitReceive_IT (hspi1 s1) TX_BUFFER RX_BUFFER BUFFER_SIZE\<rparr>))))))
      else Inr s)"

definition HAL_SPI_ErrorCallback :: "SPI_HandleTypeDef \<Rightarrow> slave_state \<Rightarrow> fault + slave_state" where
  "HAL_SPI_ErrorCallback hspi s =
     (if Instance hspi = Instance (hspi1 s) then
        bind_res (memset (rxBuffer s) NUL BUFFER_SIZE) (\<lambda>rx.
        bind_res (memset (txBuffer s) NUL BUFFER_SIZE) (\<lambda>tx0.
        bind_res (strcpy tx0 (c_lit ''ERR\<newline>'')) (\<lambda>tx.
          Inr (s\<lparr>rxBuffer := rx, txBuffer := tx,
                  hspi1 := HAL_SPI_TransmitReceive_IT (hspi1 s) TX_BUFFER RX_BUFFER BUFFER_SIZE\<rparr>))))
      else Inr s)"

subsection \<open>Polling-based alternative\<close>

text \<open>
  \<open>SPI_Slave_Poll\<close>. What the hardware does is an input: \<open>cs\<close> is the level read from
  the chip-select pin, \<open>status\<close> is what the blocking \<open>HAL_SPI_TransmitReceive\<close>
  returns and \<open>received\<close> are the bytes it has stored at the start of \<open>rxBuffer\<close> by
  then. The local \<open>char response[BUFFER_SIZE]\<close> is not initialised here: what it holds
  on entry is the parameter \<open>response0\<close>.
\<close>

definition SPI_Slave_Poll ::
  "GPIO_PinState \<Rightarrow> HAL_StatusTypeDef \<Rightarrow> char list \<Rightarrow> char list \<Rightarrow> char list \<Rightarrow> slave_state
     \<Rightarrow> fault + slave_state" where
  "SPI_Slave_Poll cs status received cmd0 response0 s =
     (if cs = GPIO_PIN_RESET then
        bind_res (memset (rxBuffer s) NUL BUFFER_SIZE) (\<lambda>rx0.
          if length rx0 < length received then Inl OutOfBounds
          else
            let s1 = s\<lparr>rxBuffer := received @ drop (length received) rx0\<rparr> in
            if status = HAL_OK then
              bind_res (ProcessCommand cmd0 (rxBuffer s1) response0 s1) (\<lambda>(response, s2).
              bind_res (memset (txBuffer s2) NUL BUFFER_SIZE) (\<lambda>tx0.
              bind_res (strcpy tx0 response) (\<lambda>tx.
                Inr (s2\<lparr>txBuffer := tx\<rparr>))))
            else Inr s1)
      else Inr s)"

subsection \<open>Direct LED control API\<close>

definition SPI_Slave_SetLED :: "u8 \<Rightarrow> u8 \<Rightarrow> slave_state \<Rightarrow> slave_state" where
  "SPI_Slave_SetLED index state s = LED_SetState index state s"

definition SPI_Slave_GetLED :: "u8 \<Rightarrow> slave_state \<Rightarrow> u8" where
  "SPI_Slave_GetLED index s = (if index \<ge> 4 then 0 else ledStates s ! unat index)"

subsection \<open>The events that drive the module\<close>

text \<open>
  The globals when \<open>main\<close> calls \<open>SPI_Slave_Init\<close>: objects of static storage
  duration are zero, the LED pins are low, the handle has been set up for its peripheral
  and no exchange has been started.
\<close>

definition power_on :: slave_state where
  "power_on =
     \<lparr>rxBuffer = replicate BUFFER_SIZE NUL, txBuffer = replicate BUFFER_SIZE NUL,
      spiReady = 0, ledStates = [0, 0, 0, 0], LED_PORT = (\<lambda>pin. GPIO_PIN_RESET),
      hspi1 = \<lparr>Instance = SPI1, pending = None\<rparr>\<rparr>"

text \<open>
  Modelled from the spec: the two events of the transport, \<open>OnComplete(inbound)\<close> and
  \<open>OnFault()\<close>; the interrupt handler of the vendor driver that raises them is not
  among the sources. When an exchange ends, the receive buffer holds what the peer has
  clocked in, no exchange is pending any more, and the driver calls the callback of the
  module with the module's handle.
\<close>

definition OnComplete :: "char list \<Rightarrow> char list \<Rightarrow> slave_state \<Rightarrow> fault + slave_state" where
  "OnComplete inbound cmd0 s =
     (let s1 = s\<lparr>rxBuffer := inbound, hspi1 := (hspi1 s)\<lparr>pending := None\<rparr>\<rparr>
      in HAL_SPI_TxRxCpltCallback (hspi1 s1) cmd0 s1)"

definition OnFault :: "char list \<Rightarrow> slave_state \<Rightarrow> fault + slave_state" where
  "OnFault inbound s =
     (let s1 = s\<lparr>rxBuffer := inbound, hspi1 := (hspi1 s)\<lparr>pending := None\<rparr>\<rparr>
      in HAL_SPI_ErrorCallback (hspi1 s1) s1)"

text \<open>An exchange is armed: it has been started on the two buffers, over their whole length.\<close>

definition armed :: "slave_state \<Rightarrow> bool" where
  "armed s \<longleftrightarrow> pending (hspi1 s) = Some (TX_BUFFER, RX_BUFFER, BUFFER_SIZE)"

text \<open>
  The step machine: after \<open>SPI_Slave_Init\<close> at start-up, any sequence of completed
  exchanges, faulted exchanges and calls of the direct LED API from the main loop.
\<close>

datatype event =
    ExchangeCompleted "char list" "char list"
  | ExchangeFaulted "char list"
  | DirectSet u8 u8

fun step :: "event \<Rightarrow> slave_state \<Rightarrow> fault + slave_state" where
  "step (ExchangeCompleted inbound cmd0) s = OnComplete inbound cmd0 s"
| "step (ExchangeFaulted inbound) s = OnFault inbound s"
| "step (DirectSet index state) s = Inr (SPI_Slave_SetLED index state s)"

fun run :: "event list \<Rightarrow> slave_state \<Rightarrow> fault + slave_state" where
  "run [] s = Inr s"
| "run (e # es) s = bind_res (step e s) (run es)"

definition machine :: "event list \<Rightarrow> fault + slave_state" where
  "machine es = bind_res (SPI_Slave_Init power_on) (run es)"

text \<open>An event carries arrays of the size of the buffers.\<close>

fun event_ok :: "event \<Rightarrow> bool" where
  "event_ok (ExchangeCompleted inbound cmd0) \<longleftrightarrow>
     length inbound = BUFFER_SIZE \<and> length cmd0 = BUFFER_SIZE"
| "event_ok (ExchangeFaulted inbound) \<longleftrightarrow> length inbound = BUFFER_SIZE"
| "event_ok (DirectSet index state) \<longleftrightarrow> True"

subsection \<open>The protocol as the specification words it\<close>

text \<open>
  The token of a frame: the bytes up to the first newline or the first NUL or
  \<open>BUFFER_SIZE - 1\<close> bytes, whichever comes first.
\<close>

definition token :: "char list \<Rightarrow> string" where
  "token frame = takeWhile (\<lambda>c. c \<noteq> LF \<and> c \<noteq> NUL) (take (BUFFER_SIZE - 1) frame)"

datatype command = SetChannel nat bool | SetAll bool | Query | Unrecognized

text \<open>The index of a channel symbol: G, O, R, B are the channels 0, 1, 2, 3.\<close>

definition channel_index :: "char \<Rightarrow> nat option" where
  "channel_index c =
     (if c = CHR ''G'' then Some 0 else if c = CHR ''O'' then Some 1
      else if c = CHR ''R'' then Some 2 else if c = CHR ''B'' then Some 3 else None)"

text \<open>
  The grammar: the prefix \<open>LED:\<close>, one channel symbol and one value byte, which must
  be \<open>0\<close> or \<open>1\<close>; or the prefix \<open>GET:LED\<close>; matching is by prefix and anything
  else is unrecognized.
\<close>

definition spec_parse :: "string \<Rightarrow> command" where
  "spec_parse tok =
     (if take 4 tok = ''LED:'' then
        (case drop 4 tok of
           c # v # trail \<Rightarrow>
             if v = CHR ''0'' \<or> v = CHR ''1'' then
               (if c = CHR ''A'' then SetAll (v = CHR ''1'')
                else case channel_index c of
                       Some k \<Rightarrow> SetChannel k (v = CHR ''1'')
                     | None \<Rightarrow> Unrecognized)
             else Unrecognized
         | _ \<Rightarrow> Unrecognized)
      else if take 7 tok = ''GET:LED'' then Query
      else Unrecognized)"

definition bit_of :: "bool \<Rightarrow> u8" where
  "bit_of v = (if v then 1 else 0)"

definition value_char :: "bool \<Rightarrow> char" where
  "value_char v = (if v then CHR ''1'' else CHR ''0'')"

text \<open>What a command does to the globals, through the LED control functions.\<close>

fun apply_command :: "command \<Rightarrow> slave_state \<Rightarrow> slave_state" where
  "apply_command (SetChannel k v) s = LED_SetState (of_nat k) (bit_of v) s"
| "apply_command (SetAll v) s = LED_SetAll (bit_of v) s"
| "apply_command Query s = s"
| "apply_command Unrecognized s = s"

text \<open>The text of the status answer for the four cells, as \<open>snprintf\<close> formats it.\<close>

definition sta_text :: "u8 list \<Rightarrow> string" where
  "sta_text leds =
     ''STA:'' @ dec (unat (leds ! 0)) @ dec (unat (leds ! 1)) @ dec (unat (leds ! 2))
       @ dec (unat (leds ! 3)) @ [LF]"

fun response_text :: "command \<Rightarrow> slave_state \<Rightarrow> string" where
  "response_text (SetChannel k v) s = ''OK\<newline>''"
| "response_text (SetAll v) s = ''OK\<newline>''"
| "response_text Query s = sta_text (ledStates s)"
| "response_text Unrecognized s = ''ERR\<newline>''"

text \<open>A response in its frame: the text, then NUL up to the size of the buffer.\<close>

definition frame_of :: "string \<Rightarrow> char list" where
  "frame_of text = text @ replicate (BUFFER_SIZE - length text) NUL"

text \<open>A channel value rendered as a digit.\<close>

definition render_bit :: "u8 \<Rightarrow> char" where
  "render_bit v = (if v = 0 then CHR ''0'' else CHR ''1'')"

text \<open>Every LED state cell holds 0 or 1.\<close>

definition led_inv :: "slave_state \<Rightarrow> bool" where
  "led_inv s \<longleftrightarrow> list_all (\<lambda>v. v = 0 \<or> v = 1) (ledStates s)"

text \<open>
  The text the parser leaves in a response array that holds the text \<open>t0\<close> on
  entry: an unrecognized command leaves it as it is.
\<close>

definition parsed_text :: "command \<Rightarrow> string \<Rightarrow> slave_state \<Rightarrow> string" where
  "parsed_text c t0 s = (case c of Unrecognized \<Rightarrow> t0 | _ \<Rightarrow> response_text c s)"

text \<open>The globals after \<open>SPI_Slave_Init\<close> at start-up: the first exchange is pending.\<close>

definition booted :: slave_state where
  "booted =
     \<lparr>rxBuffer = replicate BUFFER_SIZE NUL, txBuffer = frame_of ''RDY\<newline>'',
      spiReady = 0, ledStates = [0, 0, 0, 0], LED_PORT = (\<lambda>pin. GPIO_PIN_RESET),
      hspi1 = \<lparr>Instance = SPI1, pending = Some (TX_BUFFER, RX_BUFFER, BUFFER_SIZE)\<rparr>\<rparr>"

section \<open>Properties\<close>

subsection \<open>The LED control functions\<close>

lemma LED_SetAll_unfold:
  "LED_SetAll state s =
     LED_SetState 3 state (LED_SetState 2 state (LED_SetState 1 state (LED_SetState 0 state s)))"
  by (simp add: LED_SetAll_def LED_SetAll_loop.simps [of 0] LED_SetAll_loop.simps [of 1]
      LED_SetAll_loop.simps [of 2] LED_SetAll_loop.simps [of 3] LED_SetAll_loop.simps [of 4])

lemma LED_SetState_fields [simp]:
  "length (ledStates (LED_SetState i v s)) = length (ledStates s)"
  "rxBuffer (LED_SetState i v s) = rxBuffer s"
  "txBuffer (LED_SetState i v s) = txBuffer s"
  "hspi1 (LED_SetState i v s) = hspi1 s"
  "spiReady (LED_SetState i v s) = spiReady s"
  by (simp_all add: LED_SetState_def Let_def)

lemma LED_SetAll_fields [simp]:
  "length (ledStates (LED_SetAll v s)) = length (ledStates s)"
  "rxBuffer (LED_SetAll v s) = rxBuffer s"
  "txBuffer (LED_SetAll v s) = txBuffer s"
  "hspi1 (LED_SetAll v s) = hspi1 s"
  "spiReady (LED_SetAll v s) = spiReady s"
  by (simp_all add: LED_SetAll_unfold)

lemma apply_command_fields [simp]:
  "length (ledStates (apply_command c s)) = length (ledStates s)"
  "rxBuffer (apply_command c s) = rxBuffer s"
  "txBuffer (apply_command c s) = txBuffer s"
  "hspi1 (apply_command c s) = hspi1 s"
  "spiReady (apply_command c s) = spiReady s"
  by (cases c; simp)+

lemma LED_SetState_frame:
  "LED_SetState i v (s\<lparr>rxBuffer := rx, hspi1 := h\<rparr>) =
     (LED_SetState i v s)\<lparr>rxBuffer := rx, hspi1 := h\<rparr>"
  by (simp add: LED_SetState_def Let_def)

lemma apply_command_frame:
  "apply_command c (s\<lparr>rxBuffer := rx, hspi1 := h\<rparr>) =
     (apply_command c s)\<lparr>rxBuffer := rx, hspi1 := h\<rparr>"
  by (cases c) (simp_all add: LED_SetState_frame LED_SetAll_unfold)

lemma LED_SetState_inv:
  assumes "led_inv s"
  shows "led_inv (LED_SetState i v s)"
proof -
  have "set ((ledStates s)[unat i := (if v \<noteq> 0 then 1 else 0)])
          \<subseteq> insert (if v \<noteq> 0 then 1 else 0) (set (ledStates s))"
    by (rule set_update_subset_insert)
  with assms show ?thesis
    by (auto simp add: led_inv_def LED_SetState_def Let_def list_all_iff)
qed

lemma LED_SetAll_inv: "led_inv s \<Longrightarrow> led_inv (LED_SetAll v s)"
  by (simp add: LED_SetAll_unfold LED_SetState_inv)

lemma apply_command_inv: "led_inv s \<Longrightarrow> led_inv (apply_command c s)"
  by (cases c) (simp_all add: LED_SetState_inv LED_SetAll_inv)

subsection \<open>The library functions on terminated strings\<close>

lemma c_str_terminated: "NUL \<notin> set t \<Longrightarrow> c_str (t @ NUL # r) = Some t"
  by (induction t) auto

lemma strcpy_lit:
  assumes "NUL \<notin> set t" "length t < length dest"
  shows "strcpy dest (c_lit t) = Inr (t @ NUL # drop (Suc (length t)) dest)"
  using assms by (simp add: strcpy_def c_lit_def c_str_terminated)

lemma strcpy_terminated:
  assumes "NUL \<notin> set t" "length t < length dest"
  shows "strcpy dest (t @ NUL # r) = Inr (t @ NUL # drop (Suc (length t)) dest)"
  using assms by (simp add: strcpy_def c_str_terminated)

lemma strncpy_terminated:
  assumes "NUL \<notin> set t" "length t < n" "n \<le> length dest"
  shows "strncpy dest (t @ NUL # r) n = Inr (t @ replicate (n - length t) NUL @ drop n dest)"
proof -
  from assms(2) obtain m where m: "n - length t = Suc m"
    by (cases "n - length t") auto
  then have "take n (t @ NUL # r) = t @ NUL # take m r"
    using assms(2) by simp
  with assms show ?thesis
    by (simp add: strncpy_def c_str_terminated)
qed

lemma memset_all: "length buf = n \<Longrightarrow> memset buf c n = Inr (replicate n c)"
  by (simp add: memset_def)

lemma strncmp_differ:
  assumes "a \<noteq> b"
  shows "\<exists>r. strncmp (a # s1) (b # s2) (Suc n) = Inr r \<and> r \<noteq> 0"
proof -
  from assms have "(of_char a :: int) \<noteq> of_char b" by simp
  then have "int (of_char a) - int (of_char b) \<noteq> 0" by simp
  with assms show ?thesis by simp
qed

lemma strncmp_prefix:
  assumes "NUL \<notin> set tk" "NUL \<notin> set lit" "n \<le> length lit"
  shows "\<exists>r. strncmp (tk @ NUL # rest) (lit @ [NUL]) n = Inr r \<and> (r = 0 \<longleftrightarrow> take n tk = take n lit)"
  using assms
proof (induction n arbitrary: tk lit)
  case 0
  then show ?case by simp
next
  case (Suc n)
  then obtain b lit' where lit: "lit = b # lit'" by (cases lit) auto
  with Suc.prems have b: "b \<noteq> NUL" by auto
  show ?case
  proof (cases tk)
    case Nil
    from b strncmp_differ [of NUL b rest "lit' @ [NUL]" n]
    show ?thesis unfolding Nil lit by auto
  next
    case (Cons a tk')
    show ?thesis
    proof (cases "a = b")
      case False
      with strncmp_differ [of a b "tk' @ NUL # rest" "lit' @ [NUL]" n]
      show ?thesis unfolding Cons lit by auto
    next
      case True
      from Suc.IH [of tk' lit'] Suc.prems Cons lit
      obtain r where "strncmp (tk' @ NUL # rest) (lit' @ [NUL]) n = Inr r"
        "r = 0 \<longleftrightarrow> take n tk' = take n lit'" by auto
      with True Cons lit b show ?thesis by simp
    qed
  qed
qed

lemma frame_of_eq:
  assumes "length t < BUFFER_SIZE"
  shows "t @ replicate (BUFFER_SIZE - 1 - length t) NUL @ drop (BUFFER_SIZE - 1) (replicate BUFFER_SIZE NUL)
           = frame_of t"
proof -
  have "drop (BUFFER_SIZE - 1) (replicate BUFFER_SIZE NUL) = replicate 1 NUL"
    by (simp add: BUFFER_SIZE_def)
  moreover have "replicate (BUFFER_SIZE - 1 - length t) NUL @ replicate 1 NUL
      = replicate (BUFFER_SIZE - 1 - length t + 1) NUL"
    by (simp only: replicate_add)
  moreover have "BUFFER_SIZE - 1 - length t + 1 = BUFFER_SIZE - length t"
    using assms by simp
  ultimately show ?thesis by (simp only: frame_of_def)
qed

lemma frame_of_length: "length t \<le> BUFFER_SIZE \<Longrightarrow> length (frame_of t) = BUFFER_SIZE"
  by (simp add: frame_of_def)

subsection \<open>The decimal conversion\<close>

lemma digit_char_digit: "d < 10 \<Longrightarrow> digit_char d \<in> set ''0123456789''"
  unfolding digit_char_def by (rule nth_mem) simp

lemma dec_digits: "c \<in> set (dec n) \<Longrightarrow> c \<in> set ''0123456789''"
proof (induction n arbitrary: c rule: dec.induct)
  case (1 n)
  show ?case
  proof (cases "n < 10")
    case True
    with "1.prems" have "c = digit_char n"
      by (simp add: dec.simps [of n])
    with True show ?thesis
      using digit_char_digit [of n] by simp
  next
    case False
    with "1.prems" have "c \<in> set (dec (n div 10)) \<or> c = digit_char (n mod 10)"
      by (auto simp add: dec.simps [of n])
    then show ?thesis
    proof
      assume "c \<in> set (dec (n div 10))"
      with False "1.IH" show ?thesis by simp
    next
      assume "c = digit_char (n mod 10)"
      then show ?thesis
        using digit_char_digit [of "n mod 10"] by simp
    qed
  qed
qed

lemma dec_no_NUL: "NUL \<notin> set (dec n)"
  using dec_digits [of NUL n] by auto

lemma dec_length:
  assumes "n < 1000"
  shows "1 \<le> length (dec n) \<and> length (dec n) \<le> 3"
proof -
  have "n div 10 div 10 < 10"
    using assms by simp
  then show ?thesis
    by (simp add: dec.simps [of n] dec.simps [of "n div 10"] dec.simps [of "n div 10 div 10"])
qed

lemma dec_u8_length: "length (dec (unat (v :: u8))) \<le> 3"
proof -
  have "unat v < 2 ^ 8"
    using unsigned_less [of v, where ?'a = nat] by simp
  then have "unat v < 1000" by simp
  then show ?thesis using dec_length by blast
qed

lemma dec_bit: "v = 0 \<or> v = 1 \<Longrightarrow> dec (unat (v :: u8)) = [render_bit v]"
  by (auto simp add: dec.simps digit_char_def render_bit_def)

lemma sta_text_no_NUL: "NUL \<notin> set (sta_text leds)"
  by (simp add: sta_text_def dec_no_NUL)

lemma sta_text_length: "length (sta_text leds) \<le> 17"
  using dec_u8_length [of "leds ! 0"] dec_u8_length [of "leds ! 1"]
    dec_u8_length [of "leds ! 2"] dec_u8_length [of "leds ! 3"]
  by (simp add: sta_text_def)

lemma sta_text_bits:
  assumes "length leds = 4" "list_all (\<lambda>v. v = 0 \<or> v = 1) leds"
  shows "sta_text leds = ''STA:'' @ map render_bit leds @ [LF]"
proof -
  from assms(1) obtain a b c d where leds: "leds = [a, b, c, d]"
    by (auto simp add: length_Suc_conv numeral_eq_Suc)
  with assms(2) show ?thesis
    by (simp add: sta_text_def dec_bit)
qed

lemma snprintf_STA_text:
  assumes "length response = BUFFER_SIZE"
  shows "snprintf_STA response BUFFER_SIZE (leds ! 0) (leds ! 1) (leds ! 2) (leds ! 3) =
           Inr (sta_text leds @ NUL # drop (Suc (length (sta_text leds))) response)"
proof -
  have "take (BUFFER_SIZE - 1) (sta_text leds) = sta_text leds"
    using sta_text_length [of leds] by (simp add: BUFFER_SIZE_def)
  moreover have "length (sta_text leds) + 1 \<le> length response"
    using sta_text_length [of leds] assms by (simp add: BUFFER_SIZE_def)
  moreover have "BUFFER_SIZE \<noteq> 0"
    by (simp add: BUFFER_SIZE_def)
  ultimately show ?thesis
    unfolding snprintf_STA_def Let_def sta_text_def [symmetric] by simp
qed

subsection \<open>The copy loop and the grammar matching\<close>

lemma copy_loop_from:
  assumes "length cmdRaw = BUFFER_SIZE" "length cmd = BUFFER_SIZE" "i \<le> BUFFER_SIZE - 1"
  shows "copy_loop cmdRaw cmd i =
           (let tk = takeWhile (\<lambda>c. c \<noteq> LF \<and> c \<noteq> NUL) (drop i (take (BUFFER_SIZE - 1) cmdRaw))
            in Inr (take i cmd @ tk @ drop (i + length tk) cmd, i + length tk))"
  using assms
proof (induction cmdRaw cmd i rule: copy_loop.induct)
  case (1 cmdRaw cmd i)
  show ?case
  proof (cases "i < BUFFER_SIZE - 1")
    case False
    with "1.prems" have "i = BUFFER_SIZE - 1" by simp
    with False "1.prems" show ?thesis
      by (subst copy_loop.simps) simp
  next
    case True
    with "1.prems" have il: "i < length cmdRaw" "i < length cmd"
      by (simp_all add: BUFFER_SIZE_def)
    from True "1.prems" have dr: "drop i (take (BUFFER_SIZE - 1) cmdRaw) =
        cmdRaw ! i # drop (Suc i) (take (BUFFER_SIZE - 1) cmdRaw)"
      by (simp add: Cons_nth_drop_Suc [symmetric])
    show ?thesis
    proof (cases "cmdRaw ! i \<noteq> LF \<and> cmdRaw ! i \<noteq> NUL")
      case False
      with True il dr show ?thesis
        by (auto simp add: copy_loop.simps [of cmdRaw cmd i])
    next
      case c: True
      have len: "length (cmd[i := cmdRaw ! i]) = BUFFER_SIZE"
        using "1.prems" by simp
      have "i + 1 \<le> BUFFER_SIZE - 1" using True by simp
      from "1.IH" [OF True il(1) c il(2) "1.prems"(1) len this]
      have "copy_loop cmdRaw (cmd[i := cmdRaw ! i]) (i + 1) =
          (let tk = takeWhile (\<lambda>c. c \<noteq> LF \<and> c \<noteq> NUL) (drop (i + 1) (take (BUFFER_SIZE - 1) cmdRaw))
           in Inr (take (i + 1) (cmd[i := cmdRaw ! i]) @ tk @ drop (i + 1 + length tk) (cmd[i := cmdRaw ! i]),
                   i + 1 + length tk))" .
      moreover have "take (i + 1) (cmd[i := cmdRaw ! i]) = take i cmd @ [cmdRaw ! i]"
        using il by (simp add: take_Suc_conv_app_nth)
      ultimately show ?thesis
        using True il dr c
        by (simp add: copy_loop.simps [of cmdRaw cmd i] Let_def)
    qed
  qed
qed

lemma copy_loop_token:
  assumes "length cmdRaw = BUFFER_SIZE" "length cmd0 = BUFFER_SIZE"
  shows "copy_loop cmdRaw cmd0 0 =
           Inr (token cmdRaw @ drop (length (token cmdRaw)) cmd0, length (token cmdRaw))"
  using copy_loop_from [OF assms, of 0] by (simp add: token_def Let_def)

lemma token_length: "length (token frame) \<le> BUFFER_SIZE - 1"
proof -
  have "length (token frame) \<le> length (take (BUFFER_SIZE - 1) frame)"
    unfolding token_def by (rule length_takeWhile_le)
  then show ?thesis by simp
qed

lemma token_chars: "c \<in> set (token frame) \<Longrightarrow> c \<noteq> LF \<and> c \<noteq> NUL"
  unfolding token_def by (auto dest: set_takeWhileD)

lemma token_terminated:
  assumes "LF \<notin> set t" "NUL \<notin> set t" "length t < BUFFER_SIZE"
  shows "token (t @ LF # pad) = t" "token (t @ NUL # pad) = t"
proof -
  let ?P = "\<lambda>c. c \<noteq> LF \<and> c \<noteq> NUL"
  have stop: "takeWhile ?P (take m (c # r)) = []" if "\<not> ?P c" for m c r
    using that by (cases m) simp_all
  have keep: "takeWhile ?P (t @ r) = t @ takeWhile ?P r" for r
    using assms(1,2) by (intro takeWhile_append2) auto
  have tk: "take (BUFFER_SIZE - 1) (t @ c # pad) = t @ take (BUFFER_SIZE - 1 - length t) (c # pad)" for c
    using assms(3) by simp
  show "token (t @ LF # pad) = t"
    unfolding token_def tk keep by (simp only: stop append_Nil2 simp_thms)
  show "token (t @ NUL # pad) = t"
    unfolding token_def tk keep by (simp only: stop append_Nil2 simp_thms)
qed

lemma match_command_token:
  assumes tk: "NUL \<notin> set tk"
    and len: "length (tk @ NUL # rest) = BUFFER_SIZE"
    and resp: "length response = BUFFER_SIZE"
  shows "match_command (tk @ NUL # rest) response s =
           (case spec_parse tk of
              Unrecognized \<Rightarrow> Inr (response, s)
            | Query \<Rightarrow>
                bind_res (snprintf_STA response BUFFER_SIZE
                            (ledStates s ! 0) (ledStates s ! 1) (ledStates s ! 2) (ledStates s ! 3))
                  (\<lambda>r. Inr (r, s))
            | c \<Rightarrow> Inr (''OK\<newline>'' @ NUL # drop 4 response, apply_command c s))"
proof -
  obtain r1 where r1: "strncmp (tk @ NUL # rest) (c_lit ''LED:'') 4 = Inr r1"
      "r1 = 0 \<longleftrightarrow> take 4 tk = ''LED:''"
    using strncmp_prefix [OF tk, of "''LED:''" 4 rest] by (auto simp: c_lit_def)
  obtain r2 where r2: "strncmp (tk @ NUL # rest) (c_lit ''GET:LED'') 7 = Inr r2"
      "r2 = 0 \<longleftrightarrow> take 7 tk = ''GET:LED''"
    using strncmp_prefix [OF tk, of "''GET:LED''" 7 rest] by (auto simp: c_lit_def)
  have ok: "strcpy response (c_lit ''OK\<newline>'') = Inr (''OK\<newline>'' @ NUL # drop 4 response)"
    using resp by (simp add: strcpy_lit BUFFER_SIZE_def numeral_eq_Suc)
  show ?thesis
  proof (cases "take 4 tk = ''LED:''")
    case False
    with r1 r2 show ?thesis
      by (simp add: match_command_def bind_res_def spec_parse_def)
  next
    case True
    then have split: "tk = ''LED:'' @ drop 4 tk"
      by (metis append_take_drop_id)
    show ?thesis
    proof (cases "drop 4 tk")
      case Nil
      with split have tk_eq: "tk = ''LED:''" by simp
      with len have "length rest = 27" by (simp add: BUFFER_SIZE_def)
      then obtain g rest' where "rest = g # rest'" by (cases rest) auto
      with r1 True tk_eq show ?thesis
        by (simp add: match_command_def bind_res_def spec_parse_def rd_def)
    next
      case (Cons c tl1)
      show ?thesis
      proof (cases tl1)
        case Nil
        with split Cons have tk_eq: "tk = ''LED:'' @ [c]" by simp
        with r1 True show ?thesis
          by (simp add: match_command_def bind_res_def spec_parse_def rd_def)
      next
        case (Cons v trail)
        with split \<open>drop 4 tk = c # tl1\<close> have tk_eq: "tk = ''LED:'' @ c # v # trail" by simp
        have rd4: "rd (tk @ NUL # rest) 4 = Inr c" and rd5: "rd (tk @ NUL # rest) 5 = Inr v"
          by (simp_all add: rd_def tk_eq)
        have dr: "drop 4 tk = c # v # trail" by (simp add: tk_eq)
        show ?thesis
          unfolding match_command_def r1 rd4 rd5
          using True r1(2) ok
          by (simp add: bind_res_def spec_parse_def dr channel_index_def bit_of_def Let_def)
      qed
    qed
  qed
qed

lemma terminated_local:
  assumes "length cmd0 = BUFFER_SIZE"
  shows "length (token cmdRaw) < length cmd0"
    and "(token cmdRaw @ drop (length (token cmdRaw)) cmd0)[length (token cmdRaw) := NUL] =
           token cmdRaw @ NUL # drop (Suc (length (token cmdRaw))) cmd0"
proof -
  show k: "length (token cmdRaw) < length cmd0"
    using token_length [of cmdRaw] assms by (simp add: BUFFER_SIZE_def)
  then show "(token cmdRaw @ drop (length (token cmdRaw)) cmd0)[length (token cmdRaw) := NUL] =
           token cmdRaw @ NUL # drop (Suc (length (token cmdRaw))) cmd0"
    by (simp add: list_update_append Cons_nth_drop_Suc [symmetric])
qed

lemma ProcessCommand_token:
  assumes raw: "length cmdRaw = BUFFER_SIZE"
    and cmd0: "length cmd0 = BUFFER_SIZE"
    and resp: "length response = BUFFER_SIZE"
  shows "ProcessCommand cmd0 cmdRaw response s =
           (case spec_parse (token cmdRaw) of
              Unrecognized \<Rightarrow> Inr (response, s)
            | Query \<Rightarrow>
                bind_res (snprintf_STA response BUFFER_SIZE
                            (ledStates s ! 0) (ledStates s ! 1) (ledStates s ! 2) (ledStates s ! 3))
                  (\<lambda>r. Inr (r, s))
            | c \<Rightarrow> Inr (''OK\<newline>'' @ NUL # drop 4 response, apply_command c s))"
proof -
  let ?tk = "token cmdRaw"
  let ?k = "length ?tk"
  note tl = terminated_local [OF cmd0, of cmdRaw]
  have nul: "NUL \<notin> set ?tk"
    using token_chars [of NUL cmdRaw] by auto
  have len: "length (?tk @ NUL # drop (Suc ?k) cmd0) = BUFFER_SIZE"
    using tl(1) cmd0 by simp
  have "ProcessCommand cmd0 cmdRaw response s =
          match_command (?tk @ NUL # drop (Suc ?k) cmd0) response s"
    using tl
    by (simp add: ProcessCommand_def copy_loop_token [OF raw cmd0] bind_res_def wr_def)
  then show ?thesis
    by (simp only: match_command_token [OF nul len resp])
qed

lemma ProcessCommand_text:
  assumes raw: "length cmdRaw = BUFFER_SIZE"
    and cmd0: "length cmd0 = BUFFER_SIZE"
    and resp: "length (t0 @ NUL # r0) = BUFFER_SIZE"
  shows "\<exists>r. ProcessCommand cmd0 cmdRaw (t0 @ NUL # r0) s =
               Inr (parsed_text (spec_parse (token cmdRaw)) t0 s @ NUL # r,
                    apply_command (spec_parse (token cmdRaw)) s)"
proof (cases "spec_parse (token cmdRaw)")
  case Query
  with ProcessCommand_token [OF raw cmd0 resp, of s] snprintf_STA_text [OF resp, of "ledStates s"]
  show ?thesis
    by (simp add: bind_res_def parsed_text_def)
qed (use ProcessCommand_token [OF raw cmd0 resp, of s] in \<open>simp_all add: parsed_text_def\<close>)

subsection \<open>The entry points\<close>

lemma strcpy_frame:
  assumes "NUL \<notin> set t" "length t < BUFFER_SIZE"
  shows "strcpy (replicate BUFFER_SIZE NUL) (t @ NUL # r) = Inr (frame_of t)"
proof -
  have "BUFFER_SIZE - length t = Suc (BUFFER_SIZE - Suc (length t))"
    using assms(2) by simp
  then have "replicate (BUFFER_SIZE - length t) NUL = NUL # replicate (BUFFER_SIZE - Suc (length t)) NUL"
    by (simp only: replicate_Suc)
  with assms show ?thesis
    by (simp add: strcpy_terminated frame_of_def)
qed

lemma strncpy_frame:
  assumes "NUL \<notin> set t" "length t < BUFFER_SIZE - 1"
  shows "strncpy (replicate BUFFER_SIZE NUL) (t @ NUL # r) (BUFFER_SIZE - 1) = Inr (frame_of t)"
proof -
  have "length t < BUFFER_SIZE"
    using assms(2) by simp
  then show ?thesis
    using strncpy_terminated [OF assms(1,2), of "replicate BUFFER_SIZE NUL" r]
    by (simp only: frame_of_eq length_replicate diff_le_self)
qed

lemma c_str_None: "NUL \<notin> set xs \<Longrightarrow> c_str xs = None"
  by (induction xs) auto

lemma response_text_ok:
  "NUL \<notin> set (response_text c s)" "length (response_text c s) < BUFFER_SIZE - 1"
  using sta_text_no_NUL [of "ledStates s"] sta_text_length [of "ledStates s"]
  by (cases c; simp add: BUFFER_SIZE_def)+

lemma parsed_text_default: "parsed_text c ''ERR\<newline>'' s = response_text c s"
  by (cases c) (simp_all add: parsed_text_def)

lemma SPI_Slave_Init_result:
  assumes "sizes_ok s"
  shows "SPI_Slave_Init s =
           Inr ((LED_SetAll 0 s)
                  \<lparr>rxBuffer := replicate BUFFER_SIZE NUL, txBuffer := frame_of ''RDY\<newline>'',
                   hspi1 := (hspi1 s)\<lparr>pending := Some (TX_BUFFER, RX_BUFFER, BUFFER_SIZE)\<rparr>\<rparr>)"
proof -
  have "strcpy (replicate BUFFER_SIZE NUL) (c_lit ''RDY\<newline>'') = Inr (frame_of ''RDY\<newline>'')"
    unfolding c_lit_def append_Cons append_Nil
    using strcpy_frame [of "''RDY\<newline>''" "[]"] by (simp add: BUFFER_SIZE_def)
  with assms show ?thesis
    by (simp add: SPI_Slave_Init_def Let_def sizes_ok_def memset_all bind_res_def
        HAL_SPI_TransmitReceive_IT_def)
qed

lemma OnFault_result:
  assumes "sizes_ok s" "length inbound = BUFFER_SIZE"
  shows "OnFault inbound s =
           Inr (s\<lparr>rxBuffer := replicate BUFFER_SIZE NUL, txBuffer := frame_of ''ERR\<newline>'',
                   hspi1 := (hspi1 s)\<lparr>pending := Some (TX_BUFFER, RX_BUFFER, BUFFER_SIZE)\<rparr>\<rparr>)"
proof -
  have "strcpy (replicate BUFFER_SIZE NUL) (c_lit ''ERR\<newline>'') = Inr (frame_of ''ERR\<newline>'')"
    unfolding c_lit_def append_Cons append_Nil
    using strcpy_frame [of "''ERR\<newline>''" "[]"] by (simp add: BUFFER_SIZE_def)
  with assms show ?thesis
    by (simp add: OnFault_def HAL_SPI_ErrorCallback_def Let_def sizes_ok_def memset_all bind_res_def
        HAL_SPI_TransmitReceive_IT_def)
qed

lemma OnComplete_result:
  assumes ok: "sizes_ok s"
    and inb: "length inbound = BUFFER_SIZE"
    and cmd0: "length cmd0 = BUFFER_SIZE"
  shows "OnComplete inbound cmd0 s =
           Inr ((apply_command (spec_parse (token inbound)) s)
                  \<lparr>txBuffer := frame_of (response_text (spec_parse (token inbound)) s),
                   rxBuffer := replicate BUFFER_SIZE NUL,
                   hspi1 := (hspi1 s)\<lparr>pending := Some (TX_BUFFER, RX_BUFFER, BUFFER_SIZE)\<rparr>\<rparr>)"
proof -
  let ?c = "spec_parse (token inbound)"
  let ?s1 = "s\<lparr>rxBuffer := inbound, hspi1 := (hspi1 s)\<lparr>pending := None\<rparr>\<rparr>"
  let ?t = "response_text ?c s"
  have r0: "strcpy (replicate BUFFER_SIZE NUL) (c_lit ''ERR\<newline>'')
              = Inr (''ERR\<newline>'' @ NUL # replicate 27 NUL)"
    by (simp add: strcpy_lit BUFFER_SIZE_def)
  have r0_len: "length (''ERR\<newline>'' @ NUL # replicate 27 NUL) = BUFFER_SIZE"
    by (simp add: BUFFER_SIZE_def)
  have rt: "response_text ?c ?s1 = ?t"
    by (cases ?c) simp_all
  from ProcessCommand_text [OF inb cmd0 r0_len, of ?s1]
  obtain r where pc: "ProcessCommand cmd0 inbound (''ERR\<newline>'' @ NUL # replicate 27 NUL) ?s1
      = Inr (?t @ NUL # r, apply_command ?c ?s1)"
    unfolding parsed_text_default rt by blast
  have tx: "strncpy (replicate BUFFER_SIZE NUL) (?t @ NUL # r) (BUFFER_SIZE - 1) = Inr (frame_of ?t)"
    by (rule strncpy_frame) (rule response_text_ok)+
  have "HAL_SPI_TxRxCpltCallback (hspi1 ?s1) cmd0 ?s1 =
      Inr ((apply_command ?c ?s1)
             \<lparr>txBuffer := frame_of ?t, rxBuffer := replicate BUFFER_SIZE NUL,
              hspi1 := HAL_SPI_TransmitReceive_IT (hspi1 ?s1) TX_BUFFER RX_BUFFER BUFFER_SIZE\<rparr>)"
    using ok inb
    by (simp add: HAL_SPI_TxRxCpltCallback_def r0 [simplified] pc [simplified] tx [simplified]
        bind_res_def memset_all sizes_ok_def)
  then show ?thesis
    by (simp add: OnComplete_def Let_def apply_command_frame HAL_SPI_TransmitReceive_IT_def
        del: apply_command.simps)
qed

lemma SPI_Slave_Poll_result:
  assumes ok: "sizes_ok s"
    and rcv: "length received = BUFFER_SIZE"
    and cmd0: "length cmd0 = BUFFER_SIZE"
    and resp: "length (t0 @ NUL # r0) = BUFFER_SIZE"
    and t0: "NUL \<notin> set t0"
  shows "SPI_Slave_Poll GPIO_PIN_RESET HAL_OK received cmd0 (t0 @ NUL # r0) s =
           Inr ((apply_command (spec_parse (token received)) s)
                  \<lparr>rxBuffer := received,
                   txBuffer := frame_of (parsed_text (spec_parse (token received)) t0 s)\<rparr>)"
proof -
  let ?c = "spec_parse (token received)"
  let ?s1 = "s\<lparr>rxBuffer := received\<rparr>"
  let ?t = "parsed_text ?c t0 s"
  have rt: "parsed_text ?c t0 ?s1 = ?t"
    by (cases ?c) (simp_all add: parsed_text_def)
  from ProcessCommand_text [OF rcv cmd0 resp, of ?s1]
  obtain r where pc: "ProcessCommand cmd0 received (t0 @ NUL # r0) ?s1
      = Inr (?t @ NUL # r, apply_command ?c ?s1)"
    unfolding rt by blast
  have "NUL \<notin> set ?t" "length ?t < BUFFER_SIZE"
    using t0 resp response_text_ok [of ?c s]
    by (cases ?c; simp add: parsed_text_def)+
  then have tx: "strcpy (replicate BUFFER_SIZE NUL) (?t @ NUL # r) = Inr (frame_of ?t)"
    by (rule strcpy_frame)
  have frame: "apply_command ?c ?s1 = (apply_command ?c s)\<lparr>rxBuffer := received\<rparr>"
    by (cases ?c) (simp_all add: LED_SetAll_unfold LED_SetState_def Let_def)
  show ?thesis
    using ok rcv
    by (simp add: SPI_Slave_Poll_def Let_def pc [simplified] tx [simplified] frame
        bind_res_def memset_all sizes_ok_def del: apply_command.simps)
qed

lemma SPI_Slave_Poll_unterminated:
  assumes ok: "sizes_ok s"
    and rcv: "length received = BUFFER_SIZE"
    and cmd0: "length cmd0 = BUFFER_SIZE"
    and resp: "length response0 = BUFFER_SIZE"
    and t0: "NUL \<notin> set response0"
    and un: "spec_parse (token received) = Unrecognized"
  shows "SPI_Slave_Poll GPIO_PIN_RESET HAL_OK received cmd0 response0 s = Inl OutOfBounds"
proof -
  have "ProcessCommand cmd0 received response0 (s\<lparr>rxBuffer := received\<rparr>)
          = Inr (response0, s\<lparr>rxBuffer := received\<rparr>)"
    using ProcessCommand_token [OF rcv cmd0 resp] un by simp
  with ok rcv t0 show ?thesis
    by (simp add: SPI_Slave_Poll_def Let_def bind_res_def memset_all sizes_ok_def strcpy_def
        c_str_None)
qed

subsection \<open>The step machine\<close>

lemma four_le_one [simp]: "\<not> (4 :: u8) \<le> 1"
  by (simp add: word_le_nat_alt)

lemma sizes_ok_power_on: "sizes_ok power_on" "led_inv power_on"
  by (simp_all add: sizes_ok_def power_on_def led_inv_def BUFFER_SIZE_def)

lemma sizes_ok_update:
  assumes "sizes_ok s" "length tx = BUFFER_SIZE"
  shows "sizes_ok (s\<lparr>txBuffer := tx, rxBuffer := replicate BUFFER_SIZE NUL, hspi1 := h\<rparr>)"
    and "sizes_ok (s\<lparr>rxBuffer := replicate BUFFER_SIZE NUL, txBuffer := tx, hspi1 := h\<rparr>)"
  using assms by (simp_all add: sizes_ok_def)

lemma sizes_ok_apply: "sizes_ok s \<Longrightarrow> sizes_ok (apply_command c s)"
  by (simp add: sizes_ok_def)

lemma response_frame_length: "length (frame_of (response_text c s)) = BUFFER_SIZE"
  using response_text_ok(2) [of c s] by (simp add: frame_of_length)

lemma OnComplete_keeps:
  assumes "sizes_ok s" "length inbound = BUFFER_SIZE" "length cmd0 = BUFFER_SIZE"
  shows "\<exists>s'. OnComplete inbound cmd0 s = Inr s' \<and> sizes_ok s' \<and> armed s' \<and> (led_inv s \<longrightarrow> led_inv s')"
proof -
  let ?c = "spec_parse (token inbound)"
  have "sizes_ok ((apply_command ?c s)
                  \<lparr>txBuffer := frame_of (response_text ?c s),
                   rxBuffer := replicate BUFFER_SIZE NUL,
                   hspi1 := (hspi1 s)\<lparr>pending := Some (TX_BUFFER, RX_BUFFER, BUFFER_SIZE)\<rparr>\<rparr>)"
    using assms(1) by (intro sizes_ok_update sizes_ok_apply response_frame_length)
  moreover have "led_inv s \<longrightarrow> led_inv (apply_command ?c s)"
    by (simp add: apply_command_inv)
  ultimately show ?thesis
    unfolding OnComplete_result [OF assms]
    by (simp add: armed_def led_inv_def)
qed

lemma OnFault_keeps:
  assumes "sizes_ok s" "length inbound = BUFFER_SIZE"
  shows "\<exists>s'. OnFault inbound s = Inr s' \<and> sizes_ok s' \<and> armed s' \<and> (led_inv s \<longrightarrow> led_inv s')"
proof -
  have "length (frame_of ''ERR\<newline>'') = BUFFER_SIZE"
    by (simp add: frame_of_length BUFFER_SIZE_def)
  with assms(1)
  have "sizes_ok (s\<lparr>rxBuffer := replicate BUFFER_SIZE NUL, txBuffer := frame_of ''ERR\<newline>'',
                   hspi1 := (hspi1 s)\<lparr>pending := Some (TX_BUFFER, RX_BUFFER, BUFFER_SIZE)\<rparr>\<rparr>)"
    by (intro sizes_ok_update)
  then show ?thesis
    unfolding OnFault_result [OF assms]
    by (simp add: armed_def led_inv_def)
qed

lemma SPI_Slave_Init_keeps:
  assumes "sizes_ok s"
  shows "\<exists>s'. SPI_Slave_Init s = Inr s' \<and> sizes_ok s' \<and> armed s' \<and> led_inv s'"
proof -
  have "length (frame_of ''RDY\<newline>'') = BUFFER_SIZE"
    by (simp add: frame_of_length BUFFER_SIZE_def)
  moreover have "sizes_ok (LED_SetAll 0 s)"
    using assms by (simp add: sizes_ok_def)
  ultimately
  have "sizes_ok ((LED_SetAll 0 s)\<lparr>rxBuffer := replicate BUFFER_SIZE NUL, txBuffer := frame_of ''RDY\<newline>'',
                   hspi1 := (hspi1 s)\<lparr>pending := Some (TX_BUFFER, RX_BUFFER, BUFFER_SIZE)\<rparr>\<rparr>)"
    by (intro sizes_ok_update)
  moreover have "list_all (\<lambda>v. v = 0 \<or> v = 1) (ledStates (LED_SetAll 0 s))"
  proof -
    from assms obtain a b c d where "ledStates s = [a, b, c, d]"
      by (auto simp add: sizes_ok_def length_Suc_conv numeral_eq_Suc)
    then show ?thesis
      by (simp add: LED_SetAll_unfold LED_SetState_def Let_def)
  qed
  ultimately show ?thesis
    unfolding SPI_Slave_Init_result [OF assms]
    by (simp add: armed_def led_inv_def)
qed

lemma step_keeps:
  assumes "sizes_ok s" "armed s" "event_ok e"
  shows "\<exists>s'. step e s = Inr s' \<and> sizes_ok s' \<and> armed s' \<and> (led_inv s \<longrightarrow> led_inv s')"
proof (cases e)
  case (ExchangeCompleted inbound cmd0)
  with assms OnComplete_keeps [of s inbound cmd0] show ?thesis by simp
next
  case (ExchangeFaulted inbound)
  with assms OnFault_keeps [of s inbound] show ?thesis by simp
next
  case (DirectSet index state)
  with assms show ?thesis
    by (simp add: SPI_Slave_SetLED_def sizes_ok_def armed_def LED_SetState_inv)
qed

lemma run_keeps:
  assumes "sizes_ok s" "armed s" "led_inv s" "list_all event_ok es"
  shows "\<exists>s'. run es s = Inr s' \<and> sizes_ok s' \<and> armed s' \<and> led_inv s'"
  using assms
proof (induction es arbitrary: s)
  case Nil
  then show ?case by simp
next
  case (Cons e es)
  from Cons.prems step_keeps [of s e]
  obtain s1 where s1: "step e s = Inr s1" "sizes_ok s1" "armed s1" "led_inv s1"
    by auto
  from Cons.IH [OF s1(2-4)] Cons.prems(4)
  obtain s' where "run es s1 = Inr s'" "sizes_ok s'" "armed s'" "led_inv s'"
    by auto
  with s1(1) show ?case
    by (simp add: bind_res_def)
qed

lemma machine_keeps:
  assumes "list_all event_ok es"
  shows "\<exists>s. machine es = Inr s \<and> sizes_ok s \<and> armed s \<and> led_inv s"
proof -
  from SPI_Slave_Init_keeps [OF sizes_ok_power_on(1)]
  obtain s0 where s0: "SPI_Slave_Init power_on = Inr s0" "sizes_ok s0" "armed s0" "led_inv s0"
    by blast
  from run_keeps [OF s0(2-4) assms] s0(1) show ?thesis
    by (simp add: machine_def bind_res_def)
qed

lemma SPI_Slave_Init_power_on: "SPI_Slave_Init power_on = Inr booted"
  unfolding SPI_Slave_Init_result [OF sizes_ok_power_on(1)]
  by (simp add: LED_SetAll_unfold LED_SetState_def Let_def power_on_def booted_def
      HAL_GPIO_WritePin_def fun_eq_iff)

lemma machine_Nil: "machine [] = Inr booted"
  by (simp add: machine_def SPI_Slave_Init_power_on bind_res_def)

lemma sizes_ok_booted: "sizes_ok booted" "led_inv booted" "armed booted"
  by (simp_all add: sizes_ok_def booted_def led_inv_def armed_def frame_of_length BUFFER_SIZE_def)

subsection \<open>Commands on concrete frames\<close>

lemma channel_index_cases:
  assumes "channel_index c = Some k"
  shows "(c = CHR ''G'' \<and> k = 0) \<or> (c = CHR ''O'' \<and> k = 1) \<or> (c = CHR ''R'' \<and> k = 2)
           \<or> (c = CHR ''B'' \<and> k = 3)"
  using assms by (auto simp add: channel_index_def split: if_splits)

lemma LED_SetState_cell:
  assumes "length (ledStates s) = 4" "k < 4"
  shows "ledStates (LED_SetState (of_nat k) v s) ! k = (if v \<noteq> 0 then 1 else 0)"
proof -
  from assms(2) have "k = 0 \<or> k = 1 \<or> k = 2 \<or> k = 3" by auto
  with assms(1) show ?thesis
    by (auto simp add: LED_SetState_def Let_def)
qed

lemma unrecognized_examples:
  "spec_parse (token (''LED:X1'' @ LF # pad)) = Unrecognized"
  "spec_parse (token (''LED:G2'' @ LF # pad)) = Unrecognized"
  "spec_parse (token (''FOO'' @ LF # pad)) = Unrecognized"
  "spec_parse (token (replicate BUFFER_SIZE NUL)) = Unrecognized"
proof -
  have "token (''LED:X1'' @ LF # pad) = ''LED:X1''" "token (''LED:G2'' @ LF # pad) = ''LED:G2''"
      "token (''FOO'' @ LF # pad) = ''FOO''"
    by (intro token_terminated; simp add: BUFFER_SIZE_def)+
  moreover have "token (replicate BUFFER_SIZE NUL) = []"
    by (simp add: token_def BUFFER_SIZE_def)
  ultimately show "spec_parse (token (''LED:X1'' @ LF # pad)) = Unrecognized"
    "spec_parse (token (''LED:G2'' @ LF # pad)) = Unrecognized"
    "spec_parse (token (''FOO'' @ LF # pad)) = Unrecognized"
    "spec_parse (token (replicate BUFFER_SIZE NUL)) = Unrecognized"
    by (simp_all add: spec_parse_def channel_index_def)
qed

subsection \<open>The parser returns; the polling driver\<close>

lemma ProcessCommand_returns:
  assumes "length cmdRaw = BUFFER_SIZE" "length cmd0 = BUFFER_SIZE" "length response = BUFFER_SIZE"
  shows "\<exists>r. ProcessCommand cmd0 cmdRaw response s =
               Inr (r, apply_command (spec_parse (token cmdRaw)) s)"
proof (cases "spec_parse (token cmdRaw)")
  case Query
  with ProcessCommand_token [OF assms, of s] snprintf_STA_text [OF assms(3), of "ledStates s"]
  show ?thesis
    by (simp add: bind_res_def)
qed (use ProcessCommand_token [OF assms, of s] in simp_all)

lemma led_inv_fields:
  "led_inv (s\<lparr>rxBuffer := rx\<rparr>) = led_inv s"
  "led_inv (s\<lparr>txBuffer := tx\<rparr>) = led_inv s"
  by (simp_all add: led_inv_def)

lemma SPI_Slave_Poll_inv:
  assumes ok: "sizes_ok s" and inv: "led_inv s"
    and cmd0: "length cmd0 = BUFFER_SIZE" and resp: "length response0 = BUFFER_SIZE"
    and ret: "SPI_Slave_Poll cs status received cmd0 response0 s = Inr s'"
  shows "led_inv s'"
proof (cases "cs = GPIO_PIN_RESET \<and> status = HAL_OK \<and> length received \<le> BUFFER_SIZE")
  case False
  with ret ok inv show ?thesis
    by (auto simp add: SPI_Slave_Poll_def memset_all sizes_ok_def bind_res_def Let_def led_inv_def
        split: if_splits)
next
  case True
  let ?rx = "received @ drop (length received) (replicate BUFFER_SIZE NUL)"
  let ?s1 = "s\<lparr>rxBuffer := ?rx\<rparr>"
  have len: "length ?rx = BUFFER_SIZE"
    using True by simp
  from ProcessCommand_returns [OF len cmd0 resp, of ?s1]
  obtain r where pc: "ProcessCommand cmd0 ?rx response0 ?s1 =
      Inr (r, apply_command (spec_parse (token ?rx)) ?s1)"
    by blast
  have inv2: "led_inv (apply_command (spec_parse (token ?rx)) ?s1)"
    using inv by (simp add: apply_command_inv led_inv_fields)
  have "SPI_Slave_Poll cs status received cmd0 response0 s =
      bind_res (memset (txBuffer (apply_command (spec_parse (token ?rx)) ?s1)) NUL BUFFER_SIZE) (\<lambda>tx0.
      bind_res (strcpy tx0 r) (\<lambda>tx.
        Inr ((apply_command (spec_parse (token ?rx)) ?s1)\<lparr>txBuffer := tx\<rparr>)))"
    using True ok pc
    by (simp add: SPI_Slave_Poll_def memset_all sizes_ok_def bind_res_def Let_def
        del: apply_command.simps)
  with ret obtain tx where "s' = (apply_command (spec_parse (token ?rx)) ?s1)\<lparr>txBuffer := tx\<rparr>"
    by (auto simp add: bind_res_def split: sum.splits)
  with inv2 show ?thesis
    by (simp add: led_inv_fields)
qed

lemma token_prefix: "token frame = take (length (token frame)) frame"
proof -
  let ?P = "\<lambda>c. c \<noteq> LF \<and> c \<noteq> NUL"
  have "takeWhile ?P (take (BUFFER_SIZE - 1) frame) =
      take (length (takeWhile ?P (take (BUFFER_SIZE - 1) frame))) (take (BUFFER_SIZE - 1) frame)"
    by (rule takeWhile_eq_take)
  moreover have "length (takeWhile ?P (take (BUFFER_SIZE - 1) frame)) \<le> BUFFER_SIZE - 1"
    using token_length [of frame] by (simp add: token_def)
  ultimately show ?thesis
    by (simp add: token_def min_def)
qed

subsection \<open>The cells stay binary outside the polling driver\<close>

text \<open>
  Every LED state cell holds 0 or 1 at start-up and after \<open>SPI_Slave_SetLED\<close>,
  \<open>SPI_Slave_Init\<close>, the completion event and the fault event, and so in every state
  of the step machine; \<open>SPI_Slave_GetLED\<close> then returns 0 or 1 and the status answer
  has four digits \<open>0\<close> or \<open>1\<close>. For the polling driver, \<open>SPI_Slave_Poll_inv\<close> says
  the same whenever it returns and \<open>SPI_Slave_Poll_unterminated\<close> says when it does not.
\<close>

lemma led_inv_kept:
  assumes "sizes_ok s" "led_inv s"
    and "length inbound = BUFFER_SIZE" "length cmd0 = BUFFER_SIZE"
    and "length response = BUFFER_SIZE" "list_all event_ok es"
  shows "led_inv power_on \<and>
         led_inv (SPI_Slave_SetLED index state s) \<and>
         (index < 4 \<longrightarrow>
            SPI_Slave_GetLED index (SPI_Slave_SetLED index state s) = (if state = 0 then 0 else 1)) \<and>
         (SPI_Slave_GetLED index s = 0 \<or> SPI_Slave_GetLED index s = 1) \<and>
         (\<exists>s'. SPI_Slave_Init s = Inr s' \<and> led_inv s') \<and>
         (\<exists>s'. OnComplete inbound cmd0 s = Inr s' \<and> led_inv s') \<and>
         (\<exists>s'. OnFault inbound s = Inr s' \<and> led_inv s') \<and>
         (\<exists>s'. machine es = Inr s' \<and> led_inv s') \<and>
         snprintf_STA response BUFFER_SIZE
             (ledStates s ! 0) (ledStates s ! 1) (ledStates s ! 2) (ledStates s ! 3) =
           Inr ((''STA:'' @ map (\<lambda>v. if v = 0 then CHR ''0'' else CHR ''1'') (ledStates s) @ [LF])
                  @ NUL # drop 10 response)"
proof (intro conjI)
  have len: "length (ledStates s) = 4"
    using assms(1) by (simp add: sizes_ok_def)
  have bits: "list_all (\<lambda>v. v = 0 \<or> v = 1) (ledStates s)"
    using assms(2) by (simp add: led_inv_def)
  show "led_inv power_on"
    by (rule sizes_ok_power_on)
  show "led_inv (SPI_Slave_SetLED index state s)"
    using assms(2) by (simp add: SPI_Slave_SetLED_def LED_SetState_inv)
  show "index < 4 \<longrightarrow>
          SPI_Slave_GetLED index (SPI_Slave_SetLED index state s) = (if state = 0 then 0 else 1)"
  proof
    assume i: "index < 4"
    then have "unat index < 4"
      by (simp add: word_less_nat_alt)
    with len i show "SPI_Slave_GetLED index (SPI_Slave_SetLED index state s) = (if state = 0 then 0 else 1)"
      by (simp add: SPI_Slave_GetLED_def SPI_Slave_SetLED_def LED_SetState_def Let_def
          not_le [symmetric])
  qed
  show "SPI_Slave_GetLED index s = 0 \<or> SPI_Slave_GetLED index s = 1"
  proof (cases "index < 4")
    case True
    then have "unat index < length (ledStates s)"
      using len by (simp add: word_less_nat_alt)
    then have "ledStates s ! unat index \<in> set (ledStates s)"
      by (rule nth_mem)
    with bits True show ?thesis
      by (auto simp add: SPI_Slave_GetLED_def list_all_iff)
  next
    case False
    then show ?thesis
      by (simp add: SPI_Slave_GetLED_def not_less)
  qed
  show "\<exists>s'. SPI_Slave_Init s = Inr s' \<and> led_inv s'"
    using SPI_Slave_Init_keeps [OF assms(1)] by blast
  show "\<exists>s'. OnComplete inbound cmd0 s = Inr s' \<and> led_inv s'"
    using OnComplete_keeps [OF assms(1,3,4)] assms(2) by blast
  show "\<exists>s'. OnFault inbound s = Inr s' \<and> led_inv s'"
    using OnFault_keeps [OF assms(1,3)] assms(2) by blast
  show "\<exists>s'. machine es = Inr s' \<and> led_inv s'"
    using machine_keeps [OF assms(6)] by blast
  have "sta_text (ledStates s) = ''STA:'' @ map render_bit (ledStates s) @ [LF]"
    using len bits by (rule sta_text_bits)
  moreover have "render_bit = (\<lambda>v. if v = 0 then CHR ''0'' else CHR ''1'')"
    by (simp add: fun_eq_iff render_bit_def)
  ultimately show "snprintf_STA response BUFFER_SIZE
             (ledStates s ! 0) (ledStates s ! 1) (ledStates s ! 2) (ledStates s ! 3) =
           Inr ((''STA:'' @ map (\<lambda>v. if v = 0 then CHR ''0'' else CHR ''1'') (ledStates s) @ [LF])
                  @ NUL # drop 10 response)"
    using snprintf_STA_text [OF assms(5), of "ledStates s"] len
    by (simp add: numeral_eq_Suc)
qed

section \<open>The claims of the specification\<close>

text \<open>
  Claim C8. For every index outside [0,4) and every value, setting the channel is a silent
  no-op: \<open>SPI_Slave_SetLED\<close> (and \<open>LED_SetState\<close> under it) returns the globals as they
  were, so no channel state, no pin and no response changes, and \<open>SPI_Slave_GetLED\<close>
  returns the default 0. For every index inside [0,4), \<open>SPI_Slave_GetLED\<close> is the
  content of the cell; it is a function of the globals that returns no new globals, as
  the C function assigns to none.
\<close>

theorem invalid_index_ignored:
  "(4 \<le> index \<longrightarrow>
      SPI_Slave_SetLED index state s = s \<and> LED_SetState index state s = s \<and>
      SPI_Slave_GetLED index s = 0) \<and>
   (index < 4 \<longrightarrow> SPI_Slave_GetLED index s = ledStates s ! unat index)"
  by (simp add: SPI_Slave_SetLED_def LED_SetState_def SPI_Slave_GetLED_def not_le [symmetric])

theorem invalid_index_ignored_witness:
  "(4 :: u8) \<le> 7 \<and> SPI_Slave_SetLED 7 1 booted = booted \<and> LED_SetState 7 1 booted = booted \<and>
   SPI_Slave_GetLED 7 booted = 0 \<and>
   (2 :: u8) < 4 \<and> SPI_Slave_GetLED 2 (booted\<lparr>ledStates := [0, 0, 1, 0]\<rparr>) = 1"
  using invalid_index_ignored [of 7 1 booted]
    invalid_index_ignored [of 2 0 "booted\<lparr>ledStates := [0, 0, 1, 0]\<rparr>"]
  by simp

text \<open>
  Claim C1. After each of \<open>SPI_Slave_Init\<close>, the completion event and the fault event
  returns, an exchange is armed: the transmit-receive operation has been started on the
  outbound and the inbound buffer, over their whole length. Each of the three returns
  (no fault of the model), from any globals whose arrays have their declared sizes, and
  every state the step machine reaches from start-up is armed.
\<close>

theorem exchange_always_armed:
  assumes "sizes_ok s" "length inbound = BUFFER_SIZE" "length cmd0 = BUFFER_SIZE"
    "list_all event_ok es"
  shows "(\<exists>s'. SPI_Slave_Init s = Inr s' \<and> armed s') \<and>
         (\<exists>s'. OnComplete inbound cmd0 s = Inr s' \<and> armed s') \<and>
         (\<exists>s'. OnFault inbound s = Inr s' \<and> armed s') \<and>
         (\<exists>s'. machine es = Inr s' \<and> armed s')"
proof (intro conjI)
  show "\<exists>s'. SPI_Slave_Init s = Inr s' \<and> armed s'"
    using SPI_Slave_Init_keeps [OF assms(1)] by blast
  show "\<exists>s'. OnComplete inbound cmd0 s = Inr s' \<and> armed s'"
    using OnComplete_keeps [OF assms(1-3)] by blast
  show "\<exists>s'. OnFault inbound s = Inr s' \<and> armed s'"
    using OnFault_keeps [OF assms(1,2)] by blast
  show "\<exists>s'. machine es = Inr s' \<and> armed s'"
    using machine_keeps [OF assms(4)] by blast
qed

theorem exchange_always_armed_witness:
  "sizes_ok power_on \<and>
   length (''GET:LED'' @ LF # replicate 24 NUL) = BUFFER_SIZE \<and>
   length (replicate 32 (CHR ''U'')) = BUFFER_SIZE \<and>
   list_all event_ok
     [ExchangeCompleted (''LED:R1'' @ LF # replicate 25 NUL) (replicate 32 (CHR ''U'')),
      ExchangeFaulted (replicate 32 (CHR ''?'')), DirectSet 1 1] \<and>
   (\<exists>s'. SPI_Slave_Init power_on = Inr s' \<and> armed s') \<and>
   (\<exists>s'. OnComplete (''GET:LED'' @ LF # replicate 24 NUL) (replicate 32 (CHR ''U'')) power_on = Inr s'
      \<and> armed s') \<and>
   (\<exists>s'. OnFault (''GET:LED'' @ LF # replicate 24 NUL) power_on = Inr s' \<and> armed s') \<and>
   (\<exists>s'. machine
      [ExchangeCompleted (''LED:R1'' @ LF # replicate 25 NUL) (replicate 32 (CHR ''U'')),
       ExchangeFaulted (replicate 32 (CHR ''?'')), DirectSet 1 1] = Inr s' \<and> armed s')"
proof -
  have h1: "sizes_ok power_on"
    by (simp add: sizes_ok_def power_on_def)
  have h2: "length (''GET:LED'' @ LF # replicate 24 NUL) = BUFFER_SIZE"
    by (simp add: BUFFER_SIZE_def)
  have h3: "length (replicate 32 (CHR ''U'')) = BUFFER_SIZE"
    by (simp add: BUFFER_SIZE_def)
  have h4: "list_all event_ok
     [ExchangeCompleted (''LED:R1'' @ LF # replicate 25 NUL) (replicate 32 (CHR ''U'')),
      ExchangeFaulted (replicate 32 (CHR ''?'')), DirectSet 1 1]"
    by (simp add: BUFFER_SIZE_def)
  from exchange_always_armed [OF h1 h2 h3 h4] h1 h2 h3 h4 show ?thesis
    by (intro conjI) blast+
qed

text \<open>
  Claim C2. For every channel symbol \<open>c\<close> in G, O, R, B and every value \<open>v\<close>, the
  completion event on a frame that starts with \<open>LED:<c><v>\n\<close> (whatever follows the
  newline) sets the channel with the index of \<open>c\<close> to \<open>v\<close>, so that
  \<open>SPI_Slave_GetLED\<close> returns \<open>v\<close> afterwards, and loads \<open>OK\n\<close>, padded with
  NUL, into the outbound buffer.
\<close>

theorem led_command_sets_channel:
  assumes "sizes_ok s" "length cmd0 = BUFFER_SIZE"
    and "length (''LED:'' @ [c, value_char v, LF] @ pad) = BUFFER_SIZE"
    and "channel_index c = Some k"
  shows "\<exists>s'. OnComplete (''LED:'' @ [c, value_char v, LF] @ pad) cmd0 s = Inr s' \<and>
              SPI_Slave_GetLED (of_nat k) s' = bit_of v \<and>
              txBuffer s' = frame_of ''OK\<newline>''"
proof -
  let ?t = "''LED:'' @ [c, value_char v]"
  have frame: "''LED:'' @ [c, value_char v, LF] @ pad = ?t @ LF # pad"
    by simp
  from channel_index_cases [OF assms(4)]
  have c: "c \<noteq> LF" "c \<noteq> NUL" and k: "k < 4" by auto
  then have "token (?t @ LF # pad) = ?t"
    by (intro token_terminated) (auto simp add: value_char_def BUFFER_SIZE_def)
  moreover have "spec_parse ?t = SetChannel k v"
    using assms(4) by (auto simp add: spec_parse_def value_char_def channel_index_def split: if_splits)
  ultimately have parse: "spec_parse (token (?t @ LF # pad)) = SetChannel k v"
    by simp
  have cell: "ledStates (LED_SetState (of_nat k) (bit_of v) s) ! k = bit_of v"
    using assms(1) k by (simp add: LED_SetState_cell sizes_ok_def bit_of_def)
  from k have "k = 0 \<or> k = 1 \<or> k = 2 \<or> k = 3" by auto
  then have idx: "\<not> (4 :: u8) \<le> of_nat k" "unat (of_nat k :: u8) = k"
    by auto
  show ?thesis
    unfolding frame OnComplete_result [OF assms(1) assms(3) [unfolded frame] assms(2)] parse
    using cell idx by (simp add: SPI_Slave_GetLED_def)
qed

theorem led_command_sets_channel_witness:
  "sizes_ok booted \<and> length (replicate 32 (CHR ''U'')) = BUFFER_SIZE \<and>
   length (''LED:'' @ [CHR ''R'', value_char True, LF] @ replicate 25 NUL) = BUFFER_SIZE \<and>
   channel_index (CHR ''R'') = Some 2 \<and>
   (\<exists>s'. OnComplete (''LED:'' @ [CHR ''R'', value_char True, LF] @ replicate 25 NUL)
            (replicate 32 (CHR ''U'')) booted = Inr s' \<and>
         SPI_Slave_GetLED (of_nat 2) s' = bit_of True \<and> txBuffer s' = frame_of ''OK\<newline>'')"
proof -
  have h1: "sizes_ok booted"
    by (rule sizes_ok_booted)
  have h2: "length (replicate 32 (CHR ''U'')) = BUFFER_SIZE"
    by (simp add: BUFFER_SIZE_def)
  have h3: "length (''LED:'' @ [CHR ''R'', value_char True, LF] @ replicate 25 NUL) = BUFFER_SIZE"
    by (simp add: BUFFER_SIZE_def)
  have h4: "channel_index (CHR ''R'') = Some 2"
    by (simp add: channel_index_def)
  from led_command_sets_channel [OF h1 h2 h3 h4] h1 h2 h3 h4 show ?thesis
    by (intro conjI) blast+
qed

text \<open>
  Claim C3. From globals whose cells hold 0 or 1, the completion event on a frame that
  starts with \<open>GET:LED\n\<close> loads into the outbound buffer exactly \<open>STA:\<close>, the four
  cells in index order, each as the digit \<open>0\<close> or \<open>1\<close> with nothing between them, and a
  newline (padded with NUL), and changes no cell and no pin.
\<close>

theorem query_reports_channels:
  assumes "sizes_ok s" "led_inv s" "length cmd0 = BUFFER_SIZE"
    and "length (''GET:LED'' @ LF # pad) = BUFFER_SIZE"
  shows "\<exists>s'. OnComplete (''GET:LED'' @ LF # pad) cmd0 s = Inr s' \<and>
              txBuffer s' =
                frame_of (''STA:'' @ map (\<lambda>v. if v = 0 then CHR ''0'' else CHR ''1'') (ledStates s)
                            @ [LF]) \<and>
              length (ledStates s) = 4 \<and>
              ledStates s' = ledStates s \<and> LED_PORT s' = LED_PORT s"
proof -
  have "token (''GET:LED'' @ LF # pad) = ''GET:LED''"
    by (intro token_terminated) (auto simp add: BUFFER_SIZE_def)
  then have parse: "spec_parse (token (''GET:LED'' @ LF # pad)) = Query"
    by (simp add: spec_parse_def)
  have len: "length (ledStates s) = 4"
    using assms(1) by (simp add: sizes_ok_def)
  have "sta_text (ledStates s) = ''STA:'' @ map render_bit (ledStates s) @ [LF]"
    using assms(2) len by (intro sta_text_bits) (simp_all add: led_inv_def)
  moreover have "render_bit = (\<lambda>v. if v = 0 then CHR ''0'' else CHR ''1'')"
    by (simp add: fun_eq_iff render_bit_def)
  ultimately show ?thesis
    unfolding OnComplete_result [OF assms(1,4,3)] parse
    using len by simp
qed

theorem query_reports_channels_witness:
  "sizes_ok (booted\<lparr>ledStates := [0, 1, 0, 1]\<rparr>) \<and> led_inv (booted\<lparr>ledStates := [0, 1, 0, 1]\<rparr>) \<and>
   length (replicate 32 (CHR ''U'')) = BUFFER_SIZE \<and>
   length (''GET:LED'' @ LF # replicate 24 NUL) = BUFFER_SIZE \<and>
   (\<exists>s'. OnComplete (''GET:LED'' @ LF # replicate 24 NUL) (replicate 32 (CHR ''U''))
            (booted\<lparr>ledStates := [0, 1, 0, 1]\<rparr>) = Inr s' \<and>
         txBuffer s' = frame_of ''STA:0101\<newline>'' \<and> ledStates s' = [0, 1, 0, 1])"
proof -
  have h1: "sizes_ok (booted\<lparr>ledStates := [0, 1, 0, 1]\<rparr>)"
    using sizes_ok_booted(1) by (simp add: sizes_ok_def)
  have h2: "led_inv (booted\<lparr>ledStates := [0, 1, 0, 1]\<rparr>)"
    by (simp add: led_inv_def)
  have h3: "length (replicate 32 (CHR ''U'')) = BUFFER_SIZE"
    by (simp add: BUFFER_SIZE_def)
  have h4: "length (''GET:LED'' @ LF # replicate 24 NUL) = BUFFER_SIZE"
    by (simp add: BUFFER_SIZE_def)
  have "\<exists>s'. OnComplete (''GET:LED'' @ LF # replicate 24 NUL) (replicate 32 (CHR ''U''))
            (booted\<lparr>ledStates := [0, 1, 0, 1]\<rparr>) = Inr s' \<and>
         txBuffer s' = frame_of ''STA:0101\<newline>'' \<and> ledStates s' = [0, 1, 0, 1]"
    using query_reports_channels [OF h1 h2 h3 h4] by auto
  with h1 h2 h3 h4 show ?thesis
    by (intro conjI) blast+
qed

text \<open>
  Claim C4. For every inbound frame whose token does not match the grammar, the
  completion event leaves every cell and every pin as it was and the outbound buffer
  holds the pre-seeded \<open>ERR\n\<close>, padded with NUL. The witness runs the four frames the
  specification names: an unknown channel symbol, a value byte other than \<open>0\<close> and
  \<open>1\<close>, an unknown command and the all-zero frame.
\<close>

theorem unrecognized_keeps_state:
  assumes "sizes_ok s" "length inbound = BUFFER_SIZE" "length cmd0 = BUFFER_SIZE"
    and "spec_parse (token inbound) = Unrecognized"
  shows "\<exists>s'. OnComplete inbound cmd0 s = Inr s' \<and>
              ledStates s' = ledStates s \<and> LED_PORT s' = LED_PORT s \<and>
              txBuffer s' = frame_of ''ERR\<newline>''"
  unfolding OnComplete_result [OF assms(1-3)] assms(4) by simp

theorem unrecognized_keeps_state_witness:
  "sizes_ok (booted\<lparr>ledStates := [0, 1, 0, 1]\<rparr>) \<and>
   length (replicate 32 (CHR ''U'')) = BUFFER_SIZE \<and>
   list_all (\<lambda>inbound.
       length inbound = BUFFER_SIZE \<and> spec_parse (token inbound) = Unrecognized \<and>
       (\<exists>s'. OnComplete inbound (replicate 32 (CHR ''U'')) (booted\<lparr>ledStates := [0, 1, 0, 1]\<rparr>) = Inr s' \<and>
             ledStates s' = [0, 1, 0, 1] \<and> txBuffer s' = frame_of ''ERR\<newline>''))
     [''LED:X1'' @ LF # replicate 25 NUL, ''LED:G2'' @ LF # replicate 25 NUL,
      ''FOO'' @ LF # replicate 28 NUL, replicate BUFFER_SIZE NUL]"
proof -
  let ?s = "booted\<lparr>ledStates := [0, 1, 0, 1]\<rparr>"
  let ?g = "replicate 32 (CHR ''U'')"
  have h1: "sizes_ok ?s"
    using sizes_ok_booted(1) by (simp add: sizes_ok_def)
  have h2: "length ?g = BUFFER_SIZE"
    by (simp add: BUFFER_SIZE_def)
  have l: "length (''LED:X1'' @ LF # replicate 25 NUL) = BUFFER_SIZE"
      "length (''LED:G2'' @ LF # replicate 25 NUL) = BUFFER_SIZE"
      "length (''FOO'' @ LF # replicate 28 NUL) = BUFFER_SIZE"
      "length (replicate BUFFER_SIZE NUL) = BUFFER_SIZE"
    by (simp_all add: BUFFER_SIZE_def)
  note u = unrecognized_examples
  have "\<exists>s'. OnComplete inbound ?g ?s = Inr s' \<and>
             ledStates s' = [0, 1, 0, 1] \<and> txBuffer s' = frame_of ''ERR\<newline>''"
    if "length inbound = BUFFER_SIZE" "spec_parse (token inbound) = Unrecognized" for inbound
    using unrecognized_keeps_state [OF h1 that(1) h2 that(2)] by auto
  note e = this
  show ?thesis
    unfolding list_all_Cons_iff list_all_Nil_iff
    by (intro conjI TrueI h1 h2 l u e [OF l(1) u(1)] e [OF l(2) u(2)] e [OF l(3) u(3)]
        e [OF l(4) u(4)])
qed

text \<open>
  Claim C6. The completion event on a frame that starts with \<open>LED:A1\n\<close> sets all four
  cells to 1, on \<open>LED:A0\n\<close> to 0, and answers \<open>OK\n\<close> in both cases; \<open>LED_SetAll\<close>
  is \<open>LED_SetState\<close> applied to the indices 0, 1, 2, 3 in this order.
\<close>

theorem set_all_command:
  assumes "sizes_ok s" "length cmd0 = BUFFER_SIZE"
    and "length (''LED:A'' @ [value_char v, LF] @ pad) = BUFFER_SIZE"
  shows "(\<exists>s'. OnComplete (''LED:A'' @ [value_char v, LF] @ pad) cmd0 s = Inr s' \<and>
               ledStates s' = [bit_of v, bit_of v, bit_of v, bit_of v] \<and>
               txBuffer s' = frame_of ''OK\<newline>'' \<and>
               ledStates s' = ledStates (LED_SetAll (bit_of v) s) \<and>
               LED_PORT s' = LED_PORT (LED_SetAll (bit_of v) s)) \<and>
         LED_SetAll state s =
           LED_SetState 3 state (LED_SetState 2 state (LED_SetState 1 state (LED_SetState 0 state s)))"
proof -
  let ?t = "''LED:A'' @ [value_char v]"
  have frame: "''LED:A'' @ [value_char v, LF] @ pad = ?t @ LF # pad"
    by simp
  have "token (?t @ LF # pad) = ?t"
    by (intro token_terminated) (auto simp add: value_char_def BUFFER_SIZE_def)
  moreover have "spec_parse ?t = SetAll v"
    by (auto simp add: spec_parse_def value_char_def)
  ultimately have parse: "spec_parse (token (?t @ LF # pad)) = SetAll v"
    by simp
  from assms(1) obtain a b c d where "ledStates s = [a, b, c, d]"
    by (auto simp add: sizes_ok_def length_Suc_conv numeral_eq_Suc)
  then have cells: "ledStates (LED_SetAll (bit_of v) s) = [bit_of v, bit_of v, bit_of v, bit_of v]"
    by (simp add: LED_SetAll_unfold LED_SetState_def Let_def bit_of_def)
  show ?thesis
    unfolding frame OnComplete_result [OF assms(1) assms(3) [unfolded frame] assms(2)] parse
    using cells by (simp add: LED_SetAll_unfold [of state s])
qed

theorem set_all_command_witness:
  "sizes_ok booted \<and> length (replicate 32 (CHR ''U'')) = BUFFER_SIZE \<and>
   length (''LED:A'' @ [value_char True, LF] @ replicate 25 NUL) = BUFFER_SIZE \<and>
   length (''LED:A'' @ [value_char False, LF] @ replicate 25 NUL) = BUFFER_SIZE \<and>
   (\<exists>s'. OnComplete (''LED:A'' @ [value_char True, LF] @ replicate 25 NUL)
            (replicate 32 (CHR ''U'')) booted = Inr s' \<and>
         ledStates s' = [1, 1, 1, 1] \<and> txBuffer s' = frame_of ''OK\<newline>'') \<and>
   (\<exists>s'. OnComplete (''LED:A'' @ [value_char False, LF] @ replicate 25 NUL)
            (replicate 32 (CHR ''U'')) booted = Inr s' \<and>
         ledStates s' = [0, 0, 0, 0] \<and> txBuffer s' = frame_of ''OK\<newline>'')"
proof -
  have h1: "sizes_ok booted"
    by (rule sizes_ok_booted)
  have h2: "length (replicate 32 (CHR ''U'')) = BUFFER_SIZE"
    by (simp add: BUFFER_SIZE_def)
  have h3: "length (''LED:A'' @ [value_char True, LF] @ replicate 25 NUL) = BUFFER_SIZE"
    "length (''LED:A'' @ [value_char False, LF] @ replicate 25 NUL) = BUFFER_SIZE"
    by (simp_all add: BUFFER_SIZE_def)
  from set_all_command [OF h1 h2 h3(1)] set_all_command [OF h1 h2 h3(2)] h1 h2 h3
  show ?thesis
    by (auto simp add: bit_of_def)
qed

text \<open>
  Claim C9. For every inbound frame of 32 bytes, also one filled to capacity with a
  command and bytes that are neither newline nor NUL, the copy loop copies \<open>i\<close> bytes
  with \<open>i\<close> at most 31 and leaves the rest of the local array as it was, the
  terminator is written inside the array at index \<open>i\<close>, no access of the parser leaves
  an array (the model returns no \<open>OutOfBounds\<close>), and the result is determined by the
  frame and the globals: it does not depend on what the uninitialised local array held,
  and the outbound buffer holds the answer of the parsed command, which is \<open>ERR\n\<close>
  for an unrecognized one.
\<close>

theorem parser_bounded_and_deterministic:
  assumes "sizes_ok s" "length inbound = BUFFER_SIZE"
    and "length cmd0 = BUFFER_SIZE" "length cmd0' = BUFFER_SIZE" "length response = BUFFER_SIZE"
  shows "\<exists>cmd i cmdT r s'.
           copy_loop inbound cmd0 0 = Inr (cmd, i) \<and> i \<le> BUFFER_SIZE - 1 \<and>
           take i cmd = take i inbound \<and> drop i cmd = drop i cmd0 \<and>
           wr cmd i NUL = Inr cmdT \<and> length cmdT = BUFFER_SIZE \<and> cmdT ! i = NUL \<and>
           ProcessCommand cmd0 inbound response s = Inr (r, apply_command (spec_parse (token inbound)) s) \<and>
           ProcessCommand cmd0' inbound response s = Inr (r, apply_command (spec_parse (token inbound)) s) \<and>
           OnComplete inbound cmd0 s = Inr s' \<and> OnComplete inbound cmd0' s = Inr s' \<and>
           txBuffer s' = frame_of (response_text (spec_parse (token inbound)) s) \<and>
           ledStates s' = ledStates (apply_command (spec_parse (token inbound)) s)"
proof -
  let ?tk = "token inbound"
  let ?k = "length ?tk"
  let ?cmd = "?tk @ drop ?k cmd0"
  let ?c = "spec_parse ?tk"
  note tl = terminated_local [OF assms(3), of inbound]
  have loop: "copy_loop inbound cmd0 0 = Inr (?cmd, ?k)"
    by (rule copy_loop_token [OF assms(2,3)])
  have k: "?k \<le> BUFFER_SIZE - 1"
    by (rule token_length)
  have copied: "take ?k ?cmd = take ?k inbound"
    using token_prefix [of inbound] by simp
  have rest: "drop ?k ?cmd = drop ?k cmd0"
    by simp
  have wrt: "wr ?cmd ?k NUL = Inr (?tk @ NUL # drop (Suc ?k) cmd0)"
    using tl by (simp add: wr_def)
  have tlen: "length (?tk @ NUL # drop (Suc ?k) cmd0) = BUFFER_SIZE"
    using tl(1) assms(3) by simp
  have tnul: "(?tk @ NUL # drop (Suc ?k) cmd0) ! ?k = NUL"
    by simp
  have pc: "ProcessCommand c0 inbound response s =
              (case ?c of
                 Unrecognized \<Rightarrow> Inr (response, s)
               | Query \<Rightarrow>
                   bind_res (snprintf_STA response BUFFER_SIZE
                               (ledStates s ! 0) (ledStates s ! 1) (ledStates s ! 2) (ledStates s ! 3))
                     (\<lambda>r. Inr (r, s))
               | c \<Rightarrow> Inr (''OK\<newline>'' @ NUL # drop 4 response, apply_command c s))"
    if "length c0 = BUFFER_SIZE" for c0
    by (rule ProcessCommand_token [OF assms(2) that assms(5)])
  from ProcessCommand_returns [OF assms(2,3,5), of s]
  obtain r where r: "ProcessCommand cmd0 inbound response s = Inr (r, apply_command ?c s)"
    by blast
  then have r': "ProcessCommand cmd0' inbound response s = Inr (r, apply_command ?c s)"
    unfolding pc [OF assms(3)] pc [OF assms(4)] .
  note oc = OnComplete_result [OF assms(1,2,3)] OnComplete_result [OF assms(1,2,4)]
  show ?thesis
    using loop k copied rest wrt tlen tnul r r' oc
    by (intro exI [of _ ?cmd] exI [of _ ?k] exI [of _ "?tk @ NUL # drop (Suc ?k) cmd0"]
        exI [of _ r]
        exI [of _ "(apply_command ?c s)
                  \<lparr>txBuffer := frame_of (response_text ?c s),
                   rxBuffer := replicate BUFFER_SIZE NUL,
                   hspi1 := (hspi1 s)\<lparr>pending := Some (TX_BUFFER, RX_BUFFER, BUFFER_SIZE)\<rparr>\<rparr>"])
      (simp del: apply_command.simps)
qed

theorem parser_bounded_and_deterministic_witness:
  "sizes_ok booted \<and> length (''LED:G1'' @ replicate 26 (CHR ''x'')) = BUFFER_SIZE \<and>
   length (replicate 32 (CHR ''U'')) = BUFFER_SIZE \<and> length (replicate 32 NUL) = BUFFER_SIZE \<and>
   (\<exists>s'. OnComplete (''LED:G1'' @ replicate 26 (CHR ''x'')) (replicate 32 (CHR ''U'')) booted = Inr s' \<and>
         OnComplete (''LED:G1'' @ replicate 26 (CHR ''x'')) (replicate 32 NUL) booted = Inr s' \<and>
         txBuffer s' = frame_of ''OK\<newline>'' \<and> ledStates s' = [1, 0, 0, 0])"
proof -
  let ?f = "''LED:G1'' @ replicate 26 (CHR ''x'')"
  have h1: "sizes_ok booted"
    by (rule sizes_ok_booted)
  have h2: "length ?f = BUFFER_SIZE"
    by (simp add: BUFFER_SIZE_def)
  have h3: "length (replicate 32 (CHR ''U'')) = BUFFER_SIZE"
    by (simp add: BUFFER_SIZE_def)
  have h4: "length (replicate 32 NUL) = BUFFER_SIZE"
    by (simp add: BUFFER_SIZE_def)
  have parse: "spec_parse (token ?f) = SetChannel 0 True"
    by (simp add: token_def BUFFER_SIZE_def spec_parse_def channel_index_def)
  have cells: "ledStates (LED_SetState 0 1 booted) = [1, 0, 0, 0]"
    by (simp add: LED_SetState_def Let_def booted_def)
  have "\<exists>s'. OnComplete ?f (replicate 32 (CHR ''U'')) booted = Inr s' \<and>
         OnComplete ?f (replicate 32 NUL) booted = Inr s' \<and>
         txBuffer s' = frame_of ''OK\<newline>'' \<and> ledStates s' = [1, 0, 0, 0]"
    using parser_bounded_and_deterministic [OF h1 h2 h3 h4 h4] cells
    unfolding parse by (auto simp add: bit_of_def)
  with h1 h2 h3 h4 show ?thesis
    by (intro conjI) blast+
qed

text \<open>
  Claim C7. From every state the step machine reaches, a fault event resets both buffers,
  forces \<open>ERR\n\<close> into the outbound buffer and re-arms; the completion event on a frame
  that starts with \<open>LED:G1\n\<close> right after it sets channel 0, so that
  \<open>SPI_Slave_GetLED 0\<close> returns 1, answers \<open>OK\n\<close> and re-arms.
\<close>

theorem fault_then_command:
  assumes "list_all event_ok es" "machine es = Inr s"
    and "length junk = BUFFER_SIZE" "length cmd0 = BUFFER_SIZE"
    and "length (''LED:G1'' @ LF # pad) = BUFFER_SIZE"
  shows "\<exists>s1 s2. OnFault junk s = Inr s1 \<and>
           rxBuffer s1 = replicate BUFFER_SIZE NUL \<and> txBuffer s1 = frame_of ''ERR\<newline>'' \<and>
           armed s1 \<and>
           OnComplete (''LED:G1'' @ LF # pad) cmd0 s1 = Inr s2 \<and>
           SPI_Slave_GetLED 0 s2 = 1 \<and> txBuffer s2 = frame_of ''OK\<newline>'' \<and> armed s2"
proof -
  from machine_keeps [OF assms(1)] assms(2) have ok: "sizes_ok s"
    by auto
  let ?s1 = "s\<lparr>rxBuffer := replicate BUFFER_SIZE NUL, txBuffer := frame_of ''ERR\<newline>'',
                hspi1 := (hspi1 s)\<lparr>pending := Some (TX_BUFFER, RX_BUFFER, BUFFER_SIZE)\<rparr>\<rparr>"
  have f: "OnFault junk s = Inr ?s1"
    by (rule OnFault_result [OF ok assms(3)])
  from OnFault_keeps [OF ok assms(3)] f have ok1: "sizes_ok ?s1"
    by auto
  have "token (''LED:G1'' @ LF # pad) = ''LED:G1''"
    by (intro token_terminated) (auto simp add: BUFFER_SIZE_def)
  then have parse: "spec_parse (token (''LED:G1'' @ LF # pad)) = SetChannel 0 True"
    by (simp add: spec_parse_def channel_index_def)
  have cell: "ledStates (LED_SetState 0 1 ?s1) ! 0 = 1"
    using LED_SetState_cell [of ?s1 0 1] ok1 by (simp add: sizes_ok_def)
  let ?s2 = "(apply_command (SetChannel 0 True) ?s1)
               \<lparr>txBuffer := frame_of (response_text (SetChannel 0 True) ?s1),
                rxBuffer := replicate BUFFER_SIZE NUL,
                hspi1 := (hspi1 ?s1)\<lparr>pending := Some (TX_BUFFER, RX_BUFFER, BUFFER_SIZE)\<rparr>\<rparr>"
  have c: "OnComplete (''LED:G1'' @ LF # pad) cmd0 ?s1 = Inr ?s2"
    by (rule OnComplete_result [OF ok1 assms(5,4), unfolded parse])
  have s1: "rxBuffer ?s1 = replicate BUFFER_SIZE NUL" "txBuffer ?s1 = frame_of ''ERR\<newline>''"
      "armed ?s1"
    by (simp_all add: armed_def)
  have s2: "SPI_Slave_GetLED 0 ?s2 = 1" "txBuffer ?s2 = frame_of ''OK\<newline>''" "armed ?s2"
    using cell by (simp_all add: armed_def SPI_Slave_GetLED_def bit_of_def)
  from f s1 c s2 show ?thesis
    by blast
qed

theorem fault_then_command_witness:
  "list_all event_ok [DirectSet 3 1] \<and> machine [DirectSet 3 1] = Inr (SPI_Slave_SetLED 3 1 booted) \<and>
   length (replicate 32 (CHR ''?'')) = BUFFER_SIZE \<and> length (replicate 32 (CHR ''U'')) = BUFFER_SIZE \<and>
   length (''LED:G1'' @ LF # replicate 25 NUL) = BUFFER_SIZE \<and>
   (\<exists>s1 s2. OnFault (replicate 32 (CHR ''?'')) (SPI_Slave_SetLED 3 1 booted) = Inr s1 \<and>
      rxBuffer s1 = replicate BUFFER_SIZE NUL \<and> txBuffer s1 = frame_of ''ERR\<newline>'' \<and> armed s1 \<and>
      OnComplete (''LED:G1'' @ LF # replicate 25 NUL) (replicate 32 (CHR ''U'')) s1 = Inr s2 \<and>
      SPI_Slave_GetLED 0 s2 = 1 \<and> txBuffer s2 = frame_of ''OK\<newline>'' \<and> armed s2)"
proof -
  have h1: "list_all event_ok [DirectSet 3 1]"
    by simp
  have h2: "machine [DirectSet 3 1] = Inr (SPI_Slave_SetLED 3 1 booted)"
    by (simp add: machine_def SPI_Slave_Init_power_on bind_res_def)
  have h3: "length (replicate 32 (CHR ''?'')) = BUFFER_SIZE"
    by (simp add: BUFFER_SIZE_def)
  have h4: "length (replicate 32 (CHR ''U'')) = BUFFER_SIZE"
    by (simp add: BUFFER_SIZE_def)
  have h5: "length (''LED:G1'' @ LF # replicate 25 NUL) = BUFFER_SIZE"
    by (simp add: BUFFER_SIZE_def)
  from fault_then_command [OF h1 h2 h3 h4 h5] h1 h2 h3 h4 h5 show ?thesis
    by (intro conjI) blast+
qed

text \<open>
  Claim C10, which the code does not meet. Every LED state cell is to hold 0 or 1 after
  every operation. \<open>LED_SetState\<close> stores only 0 or 1, but the polling driver is an
  operation too: on an unrecognized frame, here \<open>LED:G2\n\<close>, with a local response
  array that holds no NUL, here 32 bytes \<open>0xFF\<close>, its \<open>strcpy\<close> into the outbound
  buffer runs off both arrays. The state before has its cells at 0 and 1 and its arrays
  at their sizes; the call ends in the fault, with no state in which the cells could be
  said to hold 0 or 1. It is the defect of claim C5.
\<close>

theorem poll_overrun_after_binary_cells:
  "sizes_ok (booted\<lparr>ledStates := [0, 1, 0, 1]\<rparr>) \<and> led_inv (booted\<lparr>ledStates := [0, 1, 0, 1]\<rparr>) \<and>
   spec_parse (token (''LED:G2'' @ LF # replicate 25 NUL)) = Unrecognized \<and>
   ProcessCommand (replicate 32 (CHR ''U'')) (''LED:G2'' @ LF # replicate 25 NUL)
       (replicate 32 (CHR 0xFF)) (booted\<lparr>ledStates := [0, 1, 0, 1], rxBuffer := ''LED:G2'' @ LF # replicate 25 NUL\<rparr>)
     = Inr (replicate 32 (CHR 0xFF),
            booted\<lparr>ledStates := [0, 1, 0, 1], rxBuffer := ''LED:G2'' @ LF # replicate 25 NUL\<rparr>) \<and>
   strcpy (replicate BUFFER_SIZE NUL) (replicate 32 (CHR 0xFF)) = Inl OutOfBounds \<and>
   SPI_Slave_Poll GPIO_PIN_RESET HAL_OK (''LED:G2'' @ LF # replicate 25 NUL)
       (replicate 32 (CHR ''U'')) (replicate 32 (CHR 0xFF)) (booted\<lparr>ledStates := [0, 1, 0, 1]\<rparr>)
     = Inl OutOfBounds"
proof (intro conjI)
  let ?s = "booted\<lparr>ledStates := [0, 1, 0, 1]\<rparr>"
  let ?f = "''LED:G2'' @ LF # replicate 25 NUL"
  let ?g = "replicate 32 (CHR ''U'')"
  let ?r = "replicate 32 (CHR 0xFF)"
  show ok: "sizes_ok ?s"
    using sizes_ok_booted(1) by (simp add: sizes_ok_def)
  show "led_inv ?s"
    by (simp add: led_inv_def)
  have f: "length ?f = BUFFER_SIZE" and g: "length ?g = BUFFER_SIZE" and r: "length ?r = BUFFER_SIZE"
    by (simp_all add: BUFFER_SIZE_def)
  have nul: "NUL \<notin> set ?r"
    by simp
  show parse: "spec_parse (token ?f) = Unrecognized"
    by (rule unrecognized_examples)
  show "ProcessCommand ?g ?f ?r (booted\<lparr>ledStates := [0, 1, 0, 1], rxBuffer := ?f\<rparr>)
          = Inr (?r, booted\<lparr>ledStates := [0, 1, 0, 1], rxBuffer := ?f\<rparr>)"
    unfolding ProcessCommand_token [OF f g r] parse by simp
  show "strcpy (replicate BUFFER_SIZE NUL) ?r = Inl OutOfBounds"
    using nul by (simp add: strcpy_def c_str_None)
  show "SPI_Slave_Poll GPIO_PIN_RESET HAL_OK ?f ?g ?r ?s = Inl OutOfBounds"
    by (rule SPI_Slave_Poll_unterminated [OF ok f g r nul parse])
qed

text \<open>
  Claim C5, which the code does not meet. The completion callback seeds the response
  with \<open>ERR\n\<close> before it calls the parser; \<open>SPI_Slave_Poll\<close> passes its local
  response array uninitialised. On the unrecognized frame \<open>FOO\n\<close> the parser writes
  nothing, so the polling driver copies whatever the array held: the string \<open>XYZ\<close> when
  it held that, and it reads past the end of the array when it held no NUL.
\<close>

theorem poll_response_not_seeded:
  "(\<exists>s'. OnComplete (''FOO'' @ LF # replicate 28 NUL) (replicate 32 (CHR ''U'')) booted = Inr s' \<and>
         txBuffer s' = frame_of ''ERR\<newline>'') \<and>
   (\<exists>s'. SPI_Slave_Poll GPIO_PIN_RESET HAL_OK (''FOO'' @ LF # replicate 28 NUL)
            (replicate 32 (CHR ''U'')) (''XYZ'' @ NUL # replicate 28 (CHR ''U'')) booted = Inr s' \<and>
         txBuffer s' = frame_of ''XYZ'' \<and> txBuffer s' \<noteq> frame_of ''ERR\<newline>'') \<and>
   SPI_Slave_Poll GPIO_PIN_RESET HAL_OK (''FOO'' @ LF # replicate 28 NUL)
     (replicate 32 (CHR ''U'')) (replicate 32 (CHR ''U'')) booted = Inl OutOfBounds"
proof (intro conjI)
  let ?f = "''FOO'' @ LF # replicate 28 NUL"
  let ?g = "replicate 32 (CHR ''U'')"
  have ok: "sizes_ok booted"
    by (rule sizes_ok_booted)
  have f: "length ?f = BUFFER_SIZE" and g: "length ?g = BUFFER_SIZE"
    and r: "length (''XYZ'' @ NUL # replicate 28 (CHR ''U'')) = BUFFER_SIZE"
    by (simp_all add: BUFFER_SIZE_def)
  have parse: "spec_parse (token ?f) = Unrecognized"
    by (rule unrecognized_examples)
  show "\<exists>s'. OnComplete ?f ?g booted = Inr s' \<and> txBuffer s' = frame_of ''ERR\<newline>''"
    unfolding OnComplete_result [OF ok f g] parse by simp
  have t0: "NUL \<notin> set ''XYZ''"
    by simp
  have "frame_of ''XYZ'' \<noteq> frame_of ''ERR\<newline>''"
    by (simp add: frame_of_def)
  then show "\<exists>s'. SPI_Slave_Poll GPIO_PIN_RESET HAL_OK ?f ?g
            (''XYZ'' @ NUL # replicate 28 (CHR ''U'')) booted = Inr s' \<and>
         txBuffer s' = frame_of ''XYZ'' \<and> txBuffer s' \<noteq> frame_of ''ERR\<newline>''"
    unfolding SPI_Slave_Poll_result [OF ok f g r t0] parse
    by (simp add: parsed_text_def)
  show "SPI_Slave_Poll GPIO_PIN_RESET HAL_OK ?f ?g ?g booted = Inl OutOfBounds"
    by (rule SPI_Slave_Poll_unterminated [OF ok f g g _ parse]) simp
qed

end
